theory Spec2Isabelle
  imports Complex_Main
begin

section \<open>C values and control\<close>

text \<open>
  The engine of \<^verbatim>\<open>ransac.c\<close> never computes with a \<^verbatim>\<open>float\<close>: it copies floats and
  compares them (\<^verbatim>\<open>e >= 0\<close>, \<^verbatim>\<open>e < max_error\<close>). A float is therefore modelled by
  its value as far as the IEEE 754 ordering goes: a finite number, an infinity, or NaN,
  which compares false with everything.
\<close>

datatype cfloat = Finite real | PosInf | NegInf | NaN

fun float_lt :: "cfloat \<Rightarrow> cfloat \<Rightarrow> bool" where
  "float_lt NaN y = False"
| "float_lt x NaN = False"
| "float_lt (Finite x) (Finite y) = (x < y)"
| "float_lt (Finite x) PosInf = True"
| "float_lt (Finite x) NegInf = False"
| "float_lt PosInf y = False"
| "float_lt NegInf NegInf = False"
| "float_lt NegInf y = True"

fun float_ge :: "cfloat \<Rightarrow> cfloat \<Rightarrow> bool" where
  "float_ge NaN y = False"
| "float_ge x NaN = False"
| "float_ge x y = (\<not> float_lt x y)"

text \<open>
  The C \<^verbatim>\<open>int\<close>s of the engine (sizes, counters, indices) are modelled by \<^typ>\<open>int\<close>. The
  engine's own arithmetic does not overflow a C \<^verbatim>\<open>int\<close> as long as the number of floats
  of the data set, \<^verbatim>\<open>n * datadim\<close>, fits one: a counter stays within the size it counts to
  and an index within its array. The remainder \<^verbatim>\<open>x % y\<close> of C truncates towards zero, so
  it has the sign of \<^verbatim>\<open>x\<close>; its divisor must not be 0.
\<close>

definition c_rem :: "int \<Rightarrow> int \<Rightarrow> int" where
  "c_rem x y = sgn x * (\<bar>x\<bar> mod \<bar>y\<bar>)"

text \<open>
  A pointer to an array is modelled by the contents it points to, indexed by the offset
  from the pointer: the C code never learns the size of a buffer it is given.
\<close>

type_synonym 'a array = "int \<Rightarrow> 'a"

text \<open>Pointer arithmetic: \<^verbatim>\<open>p + d\<close> points \<open>d\<close> elements further.\<close>

definition ptr_add :: "'a array \<Rightarrow> int \<Rightarrow> 'a array" where
  "ptr_add p d = (\<lambda>j. p (d + j))"

text \<open>
  The ways the program stops abnormally: a failed \<^verbatim>\<open>assert\<close> (the file includes
  \<^verbatim>\<open>assert.h\<close> and does not define \<^verbatim>\<open>NDEBUG\<close>), a remainder by zero, and \<^verbatim>\<open>fail\<close>.
\<close>

datatype fatal = AssertionFailed | DivisionByZero | Fail string

text \<open>
  Modelled from the spec: \<^verbatim>\<open>fail\<close> (of \<^verbatim>\<open>fail.c\<close>, which is not among the sources). The
  spec has the sampler "fail fatally with a descriptive error": \<^verbatim>\<open>fail\<close> ends the run with
  its message and does not return.
\<close>

definition fail :: "string \<Rightarrow> fatal + 'a" where
  "fail msg = Inl (Fail msg)"

text \<open>
  \<^verbatim>\<open>for (int i = a; i < n; i++) body\<close>, with the variables the body assigns as the state:
  \<open>for_loop\<close> when the body can stop the program, \<open>for_pure\<close> when it cannot.
\<close>

function for_loop :: "int \<Rightarrow> int \<Rightarrow> (int \<Rightarrow> 's \<Rightarrow> fatal + 's) \<Rightarrow> 's \<Rightarrow> fatal + 's" where
  "for_loop i n body s =
     (if i < n then
        (case body i s of Inl e \<Rightarrow> Inl e | Inr s' \<Rightarrow> for_loop (i + 1) n body s')
      else Inr s)"
  by pat_completeness auto

termination
  by (relation "measure (\<lambda>(i, n, body, s). nat (n - i))") auto

function for_pure :: "int \<Rightarrow> int \<Rightarrow> (int \<Rightarrow> 's \<Rightarrow> 's) \<Rightarrow> 's \<Rightarrow> 's" where
  "for_pure i n body s = (if i < n then for_pure (i + 1) n body (body i s) else s)"
  by pat_completeness auto

termination
  by (relation "measure (\<lambda>(i, n, body, s). nat (n - i))") auto

declare for_loop.simps [simp del]

declare for_pure.simps [simp del]

section \<open>The caller's capabilities\<close>

text \<open>
  The three callbacks get pointers and the opaque \<^verbatim>\<open>usr\<close>. They are modelled as pure
  functions of what their pointers point to, as the spec requires of them; \<^verbatim>\<open>usr\<close> is
  part of the function. The generator is given by the contents of \<^verbatim>\<open>out_model\<close> after the
  call. A \<^verbatim>\<open>NULL\<close> acceptance predicate is \<open>None\<close>.
\<close>

type_synonym ransac_error_evaluation_function = "cfloat array \<Rightarrow> cfloat array \<Rightarrow> cfloat"

type_synonym ransac_model_generating_function = "cfloat array \<Rightarrow> cfloat array"

type_synonym ransac_model_accepting_function = "cfloat array \<Rightarrow> bool"

section \<open>The single-trial scorer\<close>

definition ransac_trial ::
  "bool array \<Rightarrow> cfloat array \<Rightarrow> cfloat array \<Rightarrow> cfloat \<Rightarrow> int \<Rightarrow> int \<Rightarrow>
   ransac_error_evaluation_function \<Rightarrow> fatal + (int \<times> bool array)" where
  "ransac_trial out_mask data model max_error datadim n mev =
     for_loop 0 n
       (\<lambda>i (cx, out_mask).
          let datai = ptr_add data (i * datadim);
              e = mev model datai
          in if \<not> float_ge e (Finite 0) then Inl AssertionFailed
             else
               let out_mask = out_mask(i := float_lt e max_error)
               in Inr (if out_mask i then cx + 1 else cx, out_mask))
       (0, out_mask)"

section \<open>The sampler\<close>

text \<open>
  \<^verbatim>\<open>rand()\<close> reads and advances the C library's global generator. The generator is
  modelled by the sequence \<open>rs\<close> of the numbers it will return (each at least 0, as
  \<^verbatim>\<open>rand\<close> promises) and the number \<open>pos\<close> of calls made so far, which is the state.
\<close>

type_synonym rand_source = "nat \<Rightarrow> nat"

definition random_index :: "rand_source \<Rightarrow> int \<Rightarrow> int \<Rightarrow> nat \<Rightarrow> fatal + (int \<times> nat)" where
  "random_index rs a b pos =
     (if b - a = 0 then Inl DivisionByZero
      else
        let r = a + c_rem (int (rs pos)) (b - a)
        in if \<not> r \<ge> a then Inl AssertionFailed
           else if \<not> r < b then Inl AssertionFailed
           else Inr (r, Suc pos))"

definition compare_ints :: "int \<Rightarrow> int \<Rightarrow> int" where
  "compare_ints a b = (if a > b then 1 else 0) - (if a < b then 1 else 0)"

text \<open>
  \<^verbatim>\<open>qsort\<close> is the C library's: it rearranges the first \<open>n\<close> elements into ascending
  order of the comparison function. Any sorting algorithm models it; this one inserts.
\<close>

fun qsort_insert :: "('a \<Rightarrow> 'a \<Rightarrow> int) \<Rightarrow> 'a \<Rightarrow> 'a list \<Rightarrow> 'a list" where
  "qsort_insert cmp x [] = [x]"
| "qsort_insert cmp x (y # ys) =
     (if cmp x y \<le> 0 then x # y # ys else y # qsort_insert cmp x ys)"

fun qsort_list :: "('a \<Rightarrow> 'a \<Rightarrow> int) \<Rightarrow> 'a list \<Rightarrow> 'a list" where
  "qsort_list cmp [] = []"
| "qsort_list cmp (x # xs) = qsort_insert cmp x (qsort_list cmp xs)"

text \<open>\<open>store_list t i xs\<close> writes the list \<open>xs\<close> into the array \<open>t\<close> from index \<open>i\<close> on.\<close>

fun store_list :: "'a array \<Rightarrow> int \<Rightarrow> 'a list \<Rightarrow> 'a array" where
  "store_list t i [] = t"
| "store_list t i (x # xs) = store_list (t(i := x)) (i + 1) xs"

definition qsort :: "'a array \<Rightarrow> int \<Rightarrow> ('a \<Rightarrow> 'a \<Rightarrow> int) \<Rightarrow> 'a array" where
  "qsort t n cmp = store_list t 0 (qsort_list cmp (map t [0..n - 1]))"

text \<open>
  \<open>are_different\<close> returns the sorted vector with its answer; the scan returns at the
  first equal neighbours.
\<close>

function are_different_scan :: "int array \<Rightarrow> int \<Rightarrow> int \<Rightarrow> bool" where
  "are_different_scan t i n =
     (if i < n then (if t (i - 1) = t i then False else are_different_scan t (i + 1) n)
      else True)"
  by pat_completeness auto

termination
  by (relation "measure (\<lambda>(t, i, n). nat (n - i))") auto

declare are_different_scan.simps [simp del]

definition are_different :: "int array \<Rightarrow> int \<Rightarrow> int array \<times> bool" where
  "are_different t n = (let t = qsort t n compare_ints in (t, are_different_scan t 1 n))"

text \<open>One batch of draws: \<^verbatim>\<open>for (int i = 0; i < n; i++) idx[i] = random_index(a, b);\<close>\<close>

definition fill_batch ::
  "rand_source \<Rightarrow> int array \<Rightarrow> int \<Rightarrow> int \<Rightarrow> int \<Rightarrow> nat \<Rightarrow> fatal + (int array \<times> nat)" where
  "fill_batch rs idx n a b pos =
     for_loop 0 n
       (\<lambda>i (idx, pos).
          case random_index rs a b pos of
            Inl e \<Rightarrow> Inl e
          | Inr (r, pos) \<Rightarrow> Inr (idx(i := r), pos))
       (idx, pos)"

text \<open>
  The \<^verbatim>\<open>do ... while (safecount < 10 && !are_different(idx, n))\<close> loop, from the value of
  \<open>safecount\<close> at the top of the body. \<^verbatim>\<open>&&\<close> does not call \<open>are_different\<close> once
  \<open>safecount\<close> is 10. The loop returns the vector, \<open>safecount\<close> and the generator's state.
\<close>

function fill_random_indices_loop ::
  "rand_source \<Rightarrow> int array \<Rightarrow> int \<Rightarrow> int \<Rightarrow> int \<Rightarrow> int \<Rightarrow> nat \<Rightarrow>
   fatal + (int array \<times> int \<times> nat)" where
  "fill_random_indices_loop rs idx n a b safecount pos =
     (case fill_batch rs idx n a b pos of
        Inl e \<Rightarrow> Inl e
      | Inr (idx, pos) \<Rightarrow>
          let safecount = safecount + 1
          in if safecount < 10 then
               (case are_different idx n of
                  (idx, different) \<Rightarrow>
                    if \<not> different then fill_random_indices_loop rs idx n a b safecount pos
                    else Inr (idx, safecount, pos))
             else Inr (idx, safecount, pos))"
  by pat_completeness auto

termination
  by (relation "measure (\<lambda>(rs, idx, n, a, b, safecount, pos). nat (10 - safecount))") auto

declare fill_random_indices_loop.simps [simp del]

definition fill_random_indices ::
  "rand_source \<Rightarrow> int array \<Rightarrow> int \<Rightarrow> int \<Rightarrow> int \<Rightarrow> nat \<Rightarrow> fatal + (int array \<times> nat)" where
  "fill_random_indices rs idx n a b pos =
     (case fill_random_indices_loop rs idx n a b 0 pos of
        Inl e \<Rightarrow> Inl e
      | Inr (idx, safecount, pos) \<Rightarrow>
          if safecount = 10 then fail ''could not generate any model''
          else Inr (idx, pos))"

section \<open>The consensus engine\<close>

text \<open>
  The caller's memory: the \<^verbatim>\<open>float\<close> objects and the \<^verbatim>\<open>bool\<close> objects, by address. The
  pointers \<^verbatim>\<open>data\<close>, \<^verbatim>\<open>out_model\<close> and \<^verbatim>\<open>out_mask\<close> are addresses into it, the last two
  \<open>None\<close> when \<^verbatim>\<open>NULL\<close>.
\<close>

record memory =
  floats :: "int \<Rightarrow> cfloat"
  bools :: "int \<Rightarrow> bool"

text \<open>
  The local arrays of \<^verbatim>\<open>ransac\<close> are storage of its own, apart from the caller's memory:
  \<^verbatim>\<open>best_model\<close>, \<^verbatim>\<open>indices\<close>, \<^verbatim>\<open>x\<close> and \<^verbatim>\<open>model\<close> are automatic arrays,
  \<^verbatim>\<open>best_mask\<close> and \<^verbatim>\<open>tmp_mask\<close> come from \<^verbatim>\<open>xmalloc\<close> (of \<^verbatim>\<open>xmalloc.c\<close>, which is not
  among the sources; it is taken to return a fresh buffer). C does not initialise any of
  them: what they hold at first is a parameter of the model. \<^verbatim>\<open>indices\<close> and \<^verbatim>\<open>x\<close> are
  declared in the body of the trial loop and start every trial from that content; the
  entries the trial reads are written first. \<^verbatim>\<open>model\<close> is what the generator returns.
\<close>

record uninitialised =
  u_best_model :: "cfloat array"
  u_best_mask :: "bool array"
  u_tmp_mask :: "bool array"
  u_indices :: "int array"
  u_x :: "cfloat array"

text \<open>
  What one trial hands to the next: the best-so-far record, the scratch mask and the
  state of the random generator.
\<close>

record ransac_locals =
  best_ninliers :: int
  best_model :: "cfloat array"
  best_mask :: "bool array"
  tmp_mask :: "bool array"
  rand_calls :: nat

text \<open>Lines 156 to 159: the sampled points, copied into \<^verbatim>\<open>x\<close> in the order of \<^verbatim>\<open>indices\<close>.\<close>

definition ransac_sample_points ::
  "cfloat array \<Rightarrow> cfloat array \<Rightarrow> int \<Rightarrow> int array \<Rightarrow> int \<Rightarrow> cfloat array" where
  "ransac_sample_points x data datadim indices nfit =
     for_pure 0 nfit
       (\<lambda>j x. for_pure 0 datadim
                (\<lambda>k x. x(datadim * j + k := data (datadim * indices j + k))) x)
       x"

text \<open>
  Lines 153 to 167 of the trial: sample, generate, accept, score. The result is \<open>None\<close>
  where the code takes \<^verbatim>\<open>continue\<close>, and the model with its number of inliers otherwise;
  with it come \<^verbatim>\<open>tmp_mask\<close> (here \<open>tmp\<close>) and the state of the random generator.
\<close>

definition ransac_candidate ::
  "rand_source \<Rightarrow> uninitialised \<Rightarrow> bool array \<Rightarrow> cfloat array \<Rightarrow> int \<Rightarrow> int \<Rightarrow>
   ransac_error_evaluation_function \<Rightarrow> ransac_model_generating_function \<Rightarrow> int \<Rightarrow> cfloat \<Rightarrow>
   ransac_model_accepting_function option \<Rightarrow> nat \<Rightarrow>
   fatal + ((cfloat array \<times> int) option \<times> bool array \<times> nat)" where
  "ransac_candidate rs u tmp data datadim n mev mgen nfit max_error macc pos =
     (case fill_random_indices rs (u_indices u) nfit 0 n pos of
        Inl e \<Rightarrow> Inl e
      | Inr (indices, pos) \<Rightarrow>
          let x = ransac_sample_points (u_x u) data datadim indices nfit;
              model = mgen x
          in if (case macc of None \<Rightarrow> False | Some macc \<Rightarrow> \<not> macc model)
             then Inr (None, tmp, pos)
             else
               (case ransac_trial tmp data model max_error datadim n mev of
                  Inl e \<Rightarrow> Inl e
                | Inr (n_inliers, tmp) \<Rightarrow> Inr (Some (model, n_inliers), tmp, pos)))"

text \<open>One pass through the body of the trial loop: the candidate, then lines 169 to 176.\<close>

definition ransac_iteration ::
  "rand_source \<Rightarrow> uninitialised \<Rightarrow> cfloat array \<Rightarrow> int \<Rightarrow> int \<Rightarrow> int \<Rightarrow>
   ransac_error_evaluation_function \<Rightarrow> ransac_model_generating_function \<Rightarrow> int \<Rightarrow> cfloat \<Rightarrow>
   ransac_model_accepting_function option \<Rightarrow> ransac_locals \<Rightarrow> fatal + ransac_locals" where
  "ransac_iteration rs u data datadim n modeldim mev mgen nfit max_error macc s =
     (case ransac_candidate rs u (tmp_mask s) data datadim n mev mgen nfit max_error macc
             (rand_calls s) of
        Inl e \<Rightarrow> Inl e
      | Inr (None, tmp, pos) \<Rightarrow> Inr (s\<lparr>tmp_mask := tmp, rand_calls := pos\<rparr>)
      | Inr (Some (model, n_inliers), tmp, pos) \<Rightarrow>
          if n_inliers > best_ninliers s then
            Inr (s\<lparr>best_ninliers := n_inliers,
                   best_model :=
                     for_pure 0 modeldim (\<lambda>j best_model. best_model(j := model j)) (best_model s),
                   best_mask := for_pure 0 n (\<lambda>j best_mask. best_mask(j := tmp j)) (best_mask s),
                   tmp_mask := tmp, rand_calls := pos\<rparr>)
          else Inr (s\<lparr>tmp_mask := tmp, rand_calls := pos\<rparr>))"

text \<open>Lines 146 to 177: the locals as declared, then \<open>ntrials\<close> passes.\<close>

definition ransac_trials ::
  "rand_source \<Rightarrow> uninitialised \<Rightarrow> cfloat array \<Rightarrow> int \<Rightarrow> int \<Rightarrow> int \<Rightarrow>
   ransac_error_evaluation_function \<Rightarrow> ransac_model_generating_function \<Rightarrow> int \<Rightarrow> int \<Rightarrow>
   cfloat \<Rightarrow> ransac_model_accepting_function option \<Rightarrow> nat \<Rightarrow> fatal + ransac_locals" where
  "ransac_trials rs u data datadim n modeldim mev mgen nfit ntrials max_error macc pos =
     for_loop 0 ntrials
       (\<lambda>i s. ransac_iteration rs u data datadim n modeldim mev mgen nfit max_error macc s)
       \<lparr>best_ninliers = 0, best_model = u_best_model u, best_mask = u_best_mask u,
        tmp_mask = u_tmp_mask u, rand_calls = pos\<rparr>"

text \<open>
  \<^verbatim>\<open>ransac\<close>. Beside the arguments of the C function it takes the random source, the
  contents of its uninitialised locals, the caller's memory and the state of the random
  generator; it returns its \<^verbatim>\<open>int\<close>, the memory and the state of the generator.
\<close>

definition ransac ::
  "rand_source \<Rightarrow> uninitialised \<Rightarrow> memory \<Rightarrow> int option \<Rightarrow> int option \<Rightarrow> int \<Rightarrow> int \<Rightarrow> int \<Rightarrow>
   int \<Rightarrow> ransac_error_evaluation_function \<Rightarrow> ransac_model_generating_function \<Rightarrow> int \<Rightarrow>
   int \<Rightarrow> int \<Rightarrow> cfloat \<Rightarrow> ransac_model_accepting_function option \<Rightarrow> nat \<Rightarrow>
   fatal + (int \<times> memory \<times> nat)" where
  "ransac rs u mem out_mask out_model data datadim n modeldim mev mgen nfit ntrials
     min_inliers max_error macc pos =
     (case ransac_trials rs u (ptr_add (floats mem) data) datadim n modeldim mev mgen nfit
             ntrials max_error macc pos of
        Inl e \<Rightarrow> Inl e
      | Inr s \<Rightarrow>
          if best_ninliers s \<ge> min_inliers then
            let mem =
                  (case out_model of
                     None \<Rightarrow> mem
                   | Some p \<Rightarrow>
                       mem\<lparr>floats :=
                             for_pure 0 modeldim (\<lambda>j m. m(p + j := best_model s j)) (floats mem)\<rparr>);
                mem =
                  (case out_mask of
                     None \<Rightarrow> mem
                   | Some p \<Rightarrow>
                       mem\<lparr>bools := for_pure 0 n (\<lambda>j m. m(p + j := best_mask s j)) (bools mem)\<rparr>)
            in Inr (best_ninliers s, mem, rand_calls s)
          else Inr (0, mem, rand_calls s))"

section \<open>Notions of the specification\<close>

text \<open>
  What holds of \<^verbatim>\<open>cx\<close> and \<^verbatim>\<open>out_mask\<close> when the loop of \<open>ransac_trial\<close> reaches point
  \<open>i\<close>: the points before \<open>i\<close> are marked and counted, the rest of the mask is as it was.
\<close>

definition trial_inv ::
  "ransac_error_evaluation_function \<Rightarrow> bool array \<Rightarrow> cfloat array \<Rightarrow> cfloat array \<Rightarrow> cfloat \<Rightarrow>
   int \<Rightarrow> int \<Rightarrow> int \<times> bool array \<Rightarrow> bool" where
  "trial_inv mev out_mask data model max_error datadim i s =
     (case s of (cx, msk) \<Rightarrow>
        cx = int (length (filter msk [0..i - 1])) \<and>
        (\<forall>j. 0 \<le> j \<and> j < i \<longrightarrow>
           msk j = float_lt (mev model (ptr_add data (j * datadim))) max_error) \<and>
        (\<forall>j. \<not> (0 \<le> j \<and> j < i) \<longrightarrow> msk j = out_mask j))"

text \<open>
  What holds of \<^verbatim>\<open>idx\<close> and the random generator when a batch of draws reaches entry \<open>i\<close>:
  each entry before \<open>i\<close> is the draw of its turn and lies in \<open>[a, b)\<close>.
\<close>

definition batch_inv ::
  "rand_source \<Rightarrow> int array \<Rightarrow> int \<Rightarrow> int \<Rightarrow> nat \<Rightarrow> int \<Rightarrow> int array \<times> nat \<Rightarrow> bool" where
  "batch_inv rs idx a b pos i s =
     (case s of (idx', pos') \<Rightarrow>
        pos' = pos + nat i \<and>
        (\<forall>j. 0 \<le> j \<and> j < i \<longrightarrow>
           idx' j = a + c_rem (int (rs (pos + nat j))) (b - a) \<and> a \<le> idx' j \<and> idx' j < b) \<and>
        (\<forall>j. \<not> (0 \<le> j \<and> j < i) \<longrightarrow> idx' j = idx j))"

text \<open>A sample of \<open>n\<close> indices that is strictly increasing and within \<open>[a, b)\<close>.\<close>

definition sample_ok :: "int array \<Rightarrow> int \<Rightarrow> int \<Rightarrow> int \<Rightarrow> bool" where
  "sample_ok idx n a b =
     ((\<forall>i j. 0 \<le> i \<and> i < j \<and> j < n \<longrightarrow> idx i < idx j) \<and>
      (\<forall>i. 0 \<le> i \<and> i < n \<longrightarrow> a \<le> idx i \<and> idx i < b))"

text \<open>
  The batch of \<open>n\<close> draws that starts when the random generator has been called \<open>p\<close>
  times, for a range \<open>[a, b)\<close> that is not empty.
\<close>

definition drawn_batch :: "rand_source \<Rightarrow> int \<Rightarrow> int \<Rightarrow> int \<Rightarrow> nat \<Rightarrow> int list" where
  "drawn_batch rs n a b p = map (\<lambda>i. a + int (rs (p + i)) mod (b - a)) [0..<nat n]"

text \<open>
  The trials one by one, as the specification speaks of them: the log of the first \<open>k\<close>
  trials lists, for each trial in turn, its candidate (\<open>None\<close> for a rejected model, the model
  and its number of inliers for a scored one) and the mask the trial left in \<^verbatim>\<open>tmp_mask\<close>.
  It runs the same candidates as the trial loop, from the same scratch mask and state of
  the random generator, and keeps no best-so-far record.
\<close>

fun trial_log ::
  "rand_source \<Rightarrow> uninitialised \<Rightarrow> cfloat array \<Rightarrow> int \<Rightarrow> int \<Rightarrow>
   ransac_error_evaluation_function \<Rightarrow> ransac_model_generating_function \<Rightarrow> int \<Rightarrow> cfloat \<Rightarrow>
   ransac_model_accepting_function option \<Rightarrow> nat \<Rightarrow> bool array \<Rightarrow> nat \<Rightarrow>
   fatal + (((cfloat array \<times> int) option \<times> bool array) list \<times> bool array \<times> nat)" where
  "trial_log rs u data datadim n mev mgen nfit max_error macc 0 tmp pos = Inr ([], tmp, pos)"
| "trial_log rs u data datadim n mev mgen nfit max_error macc (Suc k) tmp pos =
     (case ransac_candidate rs u tmp data datadim n mev mgen nfit max_error macc pos of
        Inl e \<Rightarrow> Inl e
      | Inr (c, tmp', pos') \<Rightarrow>
          (case trial_log rs u data datadim n mev mgen nfit max_error macc k tmp' pos' of
             Inl e \<Rightarrow> Inl e
           | Inr (tlog, tmp'', pos'') \<Rightarrow> Inr ((c, tmp') # tlog, tmp'', pos'')))"

text \<open>The inlier counts of the scored trials of a log.\<close>

fun scored_counts :: "((cfloat array \<times> int) option \<times> bool array) list \<Rightarrow> int list" where
  "scored_counts [] = []"
| "scored_counts ((None, msk) # tlog) = scored_counts tlog"
| "scored_counts ((Some (model, c), msk) # tlog) = c # scored_counts tlog"

text \<open>
  What one pass of the trial loop does to the best-so-far record, given the candidate and
  the mask of the trial: the record is replaced when the candidate is scored with a count
  strictly greater than the record's, and is left as it was otherwise.
\<close>

definition record_step ::
  "int \<Rightarrow> int \<Rightarrow> ransac_locals \<Rightarrow> (cfloat array \<times> int) option \<Rightarrow> bool array \<Rightarrow>
   ransac_locals \<Rightarrow> bool" where
  "record_step modeldim n s c tmp s' =
     (case c of
        Some (model, cnt) \<Rightarrow>
          if best_ninliers s < cnt then
            best_ninliers s' = cnt \<and>
            best_model s' = (\<lambda>j. if 0 \<le> j \<and> j < modeldim then model j else best_model s j) \<and>
            best_mask s' = (\<lambda>j. if 0 \<le> j \<and> j < n then tmp j else best_mask s j)
          else
            best_ninliers s' = best_ninliers s \<and> best_model s' = best_model s \<and>
            best_mask s' = best_mask s
      | None \<Rightarrow>
          best_ninliers s' = best_ninliers s \<and> best_model s' = best_model s \<and>
          best_mask s' = best_mask s)"

text \<open>
  The record \<open>s'\<close> is the best of the record \<open>s\<close> and the trials of a log, ties going to the
  earlier: its count is the maximum of the count of \<open>s\<close> and the scored counts; if that is
  the count of \<open>s\<close>, the model and mask are those of \<open>s\<close>; if it is greater, they are those
  of the first trial of the log to reach it.
\<close>

definition first_best ::
  "int \<Rightarrow> int \<Rightarrow> ransac_locals \<Rightarrow> ((cfloat array \<times> int) option \<times> bool array) list \<Rightarrow>
   ransac_locals \<Rightarrow> bool" where
  "first_best modeldim n s tlog s' =
     (best_ninliers s' = Max (insert (best_ninliers s) (set (scored_counts tlog))) \<and>
      (best_ninliers s' = best_ninliers s \<longrightarrow>
         best_model s' = best_model s \<and> best_mask s' = best_mask s) \<and>
      (best_ninliers s < best_ninliers s' \<longrightarrow>
         (\<exists>i model msk.
            i < length tlog \<and> tlog ! i = (Some (model, best_ninliers s'), msk) \<and>
            (\<forall>j < i. \<forall>m c mk. tlog ! j = (Some (m, c), mk) \<longrightarrow> c < best_ninliers s') \<and>
            (\<forall>j. 0 \<le> j \<and> j < modeldim \<longrightarrow> best_model s' j = model j) \<and>
            (\<forall>j. 0 \<le> j \<and> j < n \<longrightarrow> best_mask s' j = msk j))))"

section \<open>A small data set\<close>

text \<open>
  Three points of dimension 1, the numbers 0, 1 and 5, at address 10 of the memory. A model
  is one number, generated as the sampled point itself (\<open>nfit = 1\<close>, the generator is
  \<open>\<lambda>x. x\<close>); the error of a point is its distance to the model. The random source
  returns 2, 3, 4, ...
\<close>

abbreviation ex_rs :: rand_source where
  "ex_rs \<equiv> \<lambda>i. i + 2"

abbreviation ex_u :: uninitialised where
  "ex_u \<equiv> \<lparr>u_best_model = \<lambda>_. NaN, u_best_mask = \<lambda>_. False, u_tmp_mask = \<lambda>_. False,
            u_indices = \<lambda>_. 7, u_x = \<lambda>_. NaN\<rparr>"

abbreviation ex_mem :: memory where
  "ex_mem \<equiv> \<lparr>floats = (\<lambda>_. NaN)(10 := Finite 0, 11 := Finite 1, 12 := Finite 5),
              bools = \<lambda>_. False\<rparr>"

abbreviation ex_mev :: ransac_error_evaluation_function where
  "ex_mev \<equiv> \<lambda>m d. case (m 0, d 0) of (Finite a, Finite b) \<Rightarrow> Finite \<bar>b - a\<bar> | _ \<Rightarrow> NaN"

text \<open>
  With three trials the points 5, 0 and 1 are sampled in turn, and have 1, 2 and 2 inliers
  for the threshold 2. The locals after the three trials, and the memory after a
  successful run that writes the mask at address 0 and the model at address 20:
\<close>

abbreviation ex_best :: ransac_locals where
  "ex_best \<equiv> \<lparr>best_ninliers = 2, best_model = (\<lambda>_. NaN)(0 := Finite 0),
               best_mask = (\<lambda>_. False)(0 := True, 1 := True, 2 := False),
               tmp_mask = (\<lambda>_. False)(0 := True, 1 := True, 2 := False), rand_calls = 3\<rparr>"

abbreviation ex_mem' :: memory where
  "ex_mem' \<equiv> \<lparr>floats = (\<lambda>_. NaN)(10 := Finite 0, 11 := Finite 1, 12 := Finite 5, 20 := Finite 0),
               bools = (\<lambda>_. False)(0 := True, 1 := True, 2 := False)\<rparr>"

text \<open>The log of the three trials: the third ties with the second.\<close>

abbreviation ex_log :: "((cfloat array \<times> int) option \<times> bool array) list" where
  "ex_log \<equiv>
     [(Some ((\<lambda>_. NaN)(0 := Finite 5), 1), (\<lambda>_. False)(0 := False, 1 := False, 2 := True)),
      (Some ((\<lambda>_. NaN)(0 := Finite 0), 2), (\<lambda>_. False)(0 := True, 1 := True, 2 := False)),
      (Some ((\<lambda>_. NaN)(0 := Finite 1), 2), (\<lambda>_. False)(0 := True, 1 := True, 2 := False))]"

section \<open>Loops\<close>

lemma for_loop_stop: "\<not> i < n \<Longrightarrow> for_loop i n body s = Inr s"
  by (simp add: for_loop.simps)

lemma for_loop_step:
  "i < n \<Longrightarrow> for_loop i n body s =
     (case body i s of Inl e \<Rightarrow> Inl e | Inr s' \<Rightarrow> for_loop (i + 1) n body s')"
  by (subst for_loop.simps) simp

lemma for_loop_invariant:
  assumes "for_loop i n body s = Inr s'" and "i \<le> n" and "P i s"
    and "\<And>j t t'. i \<le> j \<Longrightarrow> j < n \<Longrightarrow> P j t \<Longrightarrow> body j t = Inr t' \<Longrightarrow> P (j + 1) t'"
  shows "P n s'"
  using assms
proof (induction i n body s rule: for_loop.induct)
  case (1 i n body s)
  show ?case
  proof (cases "i < n")
    case False
    with "1.prems" show ?thesis by (simp add: for_loop_stop)
  next
    case True
    with "1.prems"(1) obtain t where t: "body i s = Inr t" and rest: "for_loop (i + 1) n body t = Inr s'"
      by (auto simp: for_loop_step split: sum.splits)
    have "P (i + 1) t" using "1.prems"(3,4) True t by auto
    with "1.IH"[OF True t rest] True "1.prems"(4) show ?thesis by auto
  qed
qed

lemma for_loop_total:
  assumes "P i s"
    and "\<And>j t. i \<le> j \<Longrightarrow> j < n \<Longrightarrow> P j t \<Longrightarrow> \<exists>t'. body j t = Inr t' \<and> P (j + 1) t'"
  shows "\<exists>s'. for_loop i n body s = Inr s'"
  using assms
proof (induction i n body s rule: for_loop.induct)
  case (1 i n body s)
  show ?case
  proof (cases "i < n")
    case False
    then show ?thesis by (simp add: for_loop_stop)
  next
    case True
    from "1.prems"(2)[of i s] True "1.prems"(1) obtain t where t: "body i s = Inr t" and Pt: "P (i + 1) t"
      by auto
    have "\<exists>s'. for_loop (i + 1) n body t = Inr s'"
      using "1.IH"[OF True t Pt] "1.prems"(2) by auto
    then show ?thesis using True t by (simp add: for_loop_step)
  qed
qed

lemma for_loop_first_failure:
  assumes "i \<le> m" and "m < n" and "P i s"
    and "\<And>j t t'. i \<le> j \<Longrightarrow> j < m \<Longrightarrow> P j t \<Longrightarrow> body j t = Inr t' \<Longrightarrow> P (j + 1) t'"
    and "\<And>j t. i \<le> j \<Longrightarrow> j \<le> m \<Longrightarrow> P j t \<Longrightarrow> body j t = Inl e \<or> (j < m \<and> (\<exists>t'. body j t = Inr t'))"
  shows "for_loop i n body s = Inl e"
  using assms
proof (induction i n body s rule: for_loop.induct)
  case (1 i n body s)
  have lt: "i < n" using "1.prems" by simp
  from "1.prems"(5)[of i s] "1.prems"(1,3)
  consider "body i s = Inl e" | t where "i < m" "body i s = Inr t" by auto
  then show ?case
  proof cases
    case 1
    then show ?thesis using lt by (simp add: for_loop_step)
  next
    case 2
    have "P (i + 1) t" using "1.prems"(3,4) 2 by auto
    then have "for_loop (i + 1) n body t = Inl e"
      using "1.IH"[OF lt 2(2)] 2(1) "1.prems"(2,4,5) by auto
    then show ?thesis using lt 2 by (simp add: for_loop_step)
  qed
qed

lemma for_loop_error:
  assumes "for_loop i n body s = Inl e"
  shows "\<exists>j t. i \<le> j \<and> j < n \<and> body j t = Inl e"
  using assms
proof (induction i n body s rule: for_loop.induct)
  case (1 i n body s)
  show ?case
  proof (cases "i < n")
    case False
    with "1.prems" show ?thesis by (simp add: for_loop_stop)
  next
    case True
    show ?thesis
    proof (cases "body i s")
      case (Inl e')
      with "1.prems" True have "e' = e" by (simp add: for_loop_step)
      with Inl True show ?thesis by auto
    next
      case (Inr t)
      with "1.prems" True have "for_loop (i + 1) n body t = Inl e" by (simp add: for_loop_step)
      from "1.IH"[OF True Inr this] obtain j t' where "i + 1 \<le> j" "j < n" "body j t' = Inl e"
        by blast
      then have "i \<le> j \<and> j < n \<and> body j t' = Inl e" by simp
      then show ?thesis by blast
    qed
  qed
qed

lemma for_loop_last:
  "i \<le> n \<Longrightarrow> for_loop i (n + 1) body s =
     (case for_loop i n body s of Inl e \<Rightarrow> Inl e | Inr t \<Rightarrow> body n t)"
proof (induction i n body s rule: for_loop.induct)
  case (1 i n body s)
  show ?case
  proof (cases "i < n")
    case False
    with "1.prems" have "i = n" by simp
    then show ?thesis
      by (simp add: for_loop_step for_loop_stop split: sum.splits)
  next
    case True
    show ?thesis
    proof (cases "body i s")
      case (Inl e)
      with True show ?thesis by (simp add: for_loop_step)
    next
      case (Inr t)
      with "1.IH"[OF True Inr] True show ?thesis by (simp add: for_loop_step)
    qed
  qed
qed

lemma for_pure_stop: "\<not> i < n \<Longrightarrow> for_pure i n body s = s"
  by (simp add: for_pure.simps)

lemma for_pure_step: "i < n \<Longrightarrow> for_pure i n body s = for_pure (i + 1) n body (body i s)"
  by (subst for_pure.simps) simp

lemma for_pure_invariant:
  assumes "i \<le> n" and "P i s"
    and "\<And>j t. i \<le> j \<Longrightarrow> j < n \<Longrightarrow> P j t \<Longrightarrow> P (j + 1) (body j t)"
  shows "P n (for_pure i n body s)"
  using assms
proof (induction i n body s rule: for_pure.induct)
  case (1 i n body s)
  show ?case
  proof (cases "i < n")
    case False
    with "1.prems" show ?thesis by (simp add: for_pure_stop)
  next
    case True
    have "P (i + 1) (body i s)" using "1.prems" True by auto
    with "1.IH"[OF True] True "1.prems"(3) show ?thesis by (auto simp: for_pure_step)
  qed
qed

lemma copy_out:
  "for_pure 0 m (\<lambda>j d. d(p + j := src j)) d =
     (\<lambda>a. if p \<le> a \<and> a < p + m then src (a - p) else d a)"
proof (cases "0 \<le> m")
  case False
  then show ?thesis by (auto simp: for_pure_stop fun_eq_iff)
next
  case True
  show ?thesis
  proof (rule for_pure_invariant[where P = "\<lambda>k d'. d' =
       (\<lambda>a. if p \<le> a \<and> a < p + k then src (a - p) else d a)", OF True])
    show "d = (\<lambda>a. if p \<le> a \<and> a < p + 0 then src (a - p) else d a)"
      by (auto simp: fun_eq_iff)
  next
    fix k t
    assume "0 \<le> k" and t: "t = (\<lambda>a. if p \<le> a \<and> a < p + k then src (a - p) else d a)"
    show "t(p + k := src k) = (\<lambda>a. if p \<le> a \<and> a < p + (k + 1) then src (a - p) else d a)"
      using \<open>0 \<le> k\<close> unfolding t by (auto simp: fun_eq_iff)
  qed
qed

lemma copy_local:
  "for_pure 0 m (\<lambda>j d. d(j := src j)) d = (\<lambda>a. if 0 \<le> a \<and> a < m then src a else d a)"
  using copy_out[of m 0 src d] by (simp cong: if_cong)

lemma upto_snoc: "0 \<le> i \<Longrightarrow> [0..i] = [0..i - 1] @ [i]"
  by (simp add: upto_rec2)

lemma filter_upd_above:
  "filter (m(i := v)) [0..i - 1] = filter m [0..(i::int) - 1]"
  by (rule filter_cong) auto

lemmas sampler_eval =
  fill_random_indices_def fill_random_indices_loop.simps fill_batch_def for_loop.simps
  random_index_def c_rem_def are_different_def qsort_def compare_ints_def
  are_different_scan.simps fail_def Let_def upto.simps

lemmas ransac_eval =
  ransac_def ransac_trials_def ransac_iteration_def ransac_candidate_def
  ransac_sample_points_def ransac_trial_def ptr_add_def for_pure.simps

section \<open>The single-trial scorer: mask, count and assertion\<close>

lemma trial_inv_step:
  assumes "0 \<le> j" and "trial_inv mev out_mask data model max_error datadim j (cx, msk)"
    and "e = mev model (ptr_add data (j * datadim))"
  shows "trial_inv mev out_mask data model max_error datadim (j + 1)
           (if float_lt e max_error then cx + 1 else cx, msk(j := float_lt e max_error))"
  using assms
  by (auto simp: trial_inv_def upto_snoc filter_upd_above)

lemma ransac_trial_result:
  assumes "ransac_trial out_mask data model max_error datadim n mev = Inr (cx, msk)"
    and "0 \<le> n"
  shows "trial_inv mev out_mask data model max_error datadim n (cx, msk)"
proof (rule for_loop_invariant[OF assms(1)[unfolded ransac_trial_def] assms(2)])
  show "trial_inv mev out_mask data model max_error datadim 0 (0, out_mask)"
    by (auto simp: trial_inv_def)
next
  fix j t t'
  assume j: "0 \<le> j" and inv: "trial_inv mev out_mask data model max_error datadim j t"
    and body: "(case t of (cx, out_mask) \<Rightarrow>
          let datai = ptr_add data (j * datadim);
              e = mev model datai
          in if \<not> float_ge e (Finite 0) then Inl AssertionFailed
             else
               let out_mask = out_mask(j := float_lt e max_error)
               in Inr (if out_mask j then cx + 1 else cx, out_mask)) = Inr t'"
  obtain c m where t: "t = (c, m)" by (cases t)
  from body t have "t' = (if float_lt (mev model (ptr_add data (j * datadim))) max_error then c + 1 else c,
       m(j := float_lt (mev model (ptr_add data (j * datadim))) max_error))"
    by (auto simp: Let_def split: if_splits)
  with trial_inv_step[OF j inv[unfolded t] refl]
  show "trial_inv mev out_mask data model max_error datadim (j + 1) t'" by simp
qed

lemma ransac_trial_negative_n:
  "n \<le> 0 \<Longrightarrow> ransac_trial out_mask data model max_error datadim n mev = Inr (0, out_mask)"
  by (simp add: ransac_trial_def for_loop_stop)

lemma float_lt_irrefl: "\<not> float_lt e e"
  by (cases e) simp_all

lemma float_lt_not_ge: "float_lt e (Finite 0) \<Longrightarrow> \<not> float_ge e (Finite 0)"
  by (cases e) simp_all

text \<open>
  C3. When \<open>ransac_trial\<close> returns, the count it returns is the number of true entries among
  the \<open>n\<close> entries of the mask it leaves, and entry \<open>i\<close> is true exactly when the error of
  point \<open>i\<close> is strictly less than \<open>max_error\<close>; a point whose error equals \<open>max_error\<close>
  is an outlier.
\<close>

theorem ransac_trial_mask_and_count:
  "ransac_trial out_mask data model max_error datadim n mev = Inr (cx, msk) \<Longrightarrow>
     cx = int (length (filter msk [0..n - 1])) \<and>
     (\<forall>i. 0 \<le> i \<and> i < n \<longrightarrow>
        msk i = float_lt (mev model (ptr_add data (i * datadim))) max_error) \<and>
     (\<forall>i. 0 \<le> i \<and> i < n \<and> mev model (ptr_add data (i * datadim)) = max_error \<longrightarrow>
        \<not> msk i)"
proof (cases "0 \<le> n")
  case True
  assume "ransac_trial out_mask data model max_error datadim n mev = Inr (cx, msk)"
  from ransac_trial_result[OF this True] show ?thesis
    by (auto simp: trial_inv_def float_lt_irrefl)
next
  case False
  assume "ransac_trial out_mask data model max_error datadim n mev = Inr (cx, msk)"
  with False show ?thesis by (auto simp: ransac_trial_negative_n)
qed

lemma ransac_trial_example:
  "ransac_trial (\<lambda>_. False) (\<lambda>i. Finite (of_int i)) (\<lambda>_. NaN) (Finite 2) 1 3 (\<lambda>m d. d 0)
     = Inr (2, (\<lambda>_. False)(0 := True, 1 := True, 2 := False))"
  by (simp add: ransac_trial_def for_loop.simps ptr_add_def)

theorem ransac_trial_mask_and_count_witness:
  "ransac_trial (\<lambda>_. False) (\<lambda>i. Finite (of_int i)) (\<lambda>_. NaN) (Finite 2) 1 3 (\<lambda>m d. d 0)
     = Inr (2, (\<lambda>_. False)(0 := True, 1 := True, 2 := False)) \<and>
   (2::int) = int (length (filter ((\<lambda>_. False)(0 := True, 1 := True, 2 := False)) [0..3 - 1])) \<and>
   ((\<lambda>_. False)(0 := True, 1 := True, 2 := False)) (1::int)
     = float_lt ((\<lambda>m d. d 0) (\<lambda>_. NaN) (ptr_add (\<lambda>i. Finite (of_int i)) (1 * 1))) (Finite 2) \<and>
   \<not> ((\<lambda>_. False)(0 := True, 1 := True, 2 := False)) (2::int)"
  using ransac_trial_mask_and_count[OF ransac_trial_example] ransac_trial_example
  by (simp add: ptr_add_def)

text \<open>
  C7. A negative error is not \<^verbatim>\<open>>= 0\<close>; an error among the \<open>n\<close> points that is not
  \<^verbatim>\<open>>= 0\<close> stops \<open>ransac_trial\<close> with a failed assertion, whatever the inlier decision
  would have been; and when the error of every point is \<^verbatim>\<open>>= 0\<close> the assertion never fires
  and \<open>ransac_trial\<close> returns.
\<close>

theorem ransac_trial_assertion:
  "(float_lt e (Finite 0) \<longrightarrow> \<not> float_ge e (Finite 0)) \<and>
   ((\<exists>i. 0 \<le> i \<and> i < n \<and> \<not> float_ge (mev model (ptr_add data (i * datadim))) (Finite 0)) \<longrightarrow>
      ransac_trial out_mask data model max_error datadim n mev = Inl AssertionFailed) \<and>
   ((\<forall>i. 0 \<le> i \<and> i < n \<longrightarrow> float_ge (mev model (ptr_add data (i * datadim))) (Finite 0)) \<longrightarrow>
      (\<exists>cx msk. ransac_trial out_mask data model max_error datadim n mev = Inr (cx, msk)))"
proof (intro conjI impI)
  assume "float_lt e (Finite 0)"
  then show "\<not> float_ge e (Finite 0)" by (rule float_lt_not_ge)
next
  assume "\<exists>i. 0 \<le> i \<and> i < n \<and> \<not> float_ge (mev model (ptr_add data (i * datadim))) (Finite 0)"
  then obtain i where i: "0 \<le> i" "i < n"
    "\<not> float_ge (mev model (ptr_add data (i * datadim))) (Finite 0)" by blast
  show "ransac_trial out_mask data model max_error datadim n mev = Inl AssertionFailed"
    unfolding ransac_trial_def
  proof (rule for_loop_first_failure[where m = i and P = "\<lambda>_ _. True"])
    fix j and t :: "int \<times> bool array"
    assume "0 \<le> j" "j \<le> i"
    show "(case t of (cx, out_mask) \<Rightarrow>
             let datai = ptr_add data (j * datadim);
                 e = mev model datai
             in if \<not> float_ge e (Finite 0) then Inl AssertionFailed
                else
                  let out_mask = out_mask(j := float_lt e max_error)
                  in Inr (if out_mask j then cx + 1 else cx, out_mask)) = Inl AssertionFailed \<or>
          j < i \<and> (\<exists>t'. (case t of (cx, out_mask) \<Rightarrow>
             let datai = ptr_add data (j * datadim);
                 e = mev model datai
             in if \<not> float_ge e (Finite 0) then Inl AssertionFailed
                else
                  let out_mask = out_mask(j := float_lt e max_error)
                  in Inr (if out_mask j then cx + 1 else cx, out_mask)) = Inr t')"
      using i(3) \<open>j \<le> i\<close> by (cases t; cases "j = i") (auto simp: Let_def)
  qed (use i in auto)
next
  assume ok: "\<forall>i. 0 \<le> i \<and> i < n \<longrightarrow> float_ge (mev model (ptr_add data (i * datadim))) (Finite 0)"
  have "\<exists>s'. ransac_trial out_mask data model max_error datadim n mev = Inr s'"
    unfolding ransac_trial_def
    by (rule for_loop_total[where P = "\<lambda>_ _. True"]) (use ok in \<open>auto simp: Let_def\<close>)
  then show "\<exists>cx msk. ransac_trial out_mask data model max_error datadim n mev = Inr (cx, msk)"
    by auto
qed

theorem ransac_trial_assertion_witness:
  "float_lt (Finite (- 1)) (Finite 0) \<and> \<not> float_ge (Finite (- 1)) (Finite 0) \<and>
   \<not> float_ge ((\<lambda>m d. d 0) (\<lambda>_. NaN) (ptr_add (\<lambda>i. Finite (1 - of_int i)) (2 * 1))) (Finite 0) \<and>
   ransac_trial (\<lambda>_. False) (\<lambda>i. Finite (1 - of_int i)) (\<lambda>_. NaN) (Finite 2) 1 3 (\<lambda>m d. d 0)
     = Inl AssertionFailed \<and>
   float_ge ((\<lambda>m d. d 0) (\<lambda>_. NaN) (ptr_add (\<lambda>i. Finite (1 - of_int i)) (0 * 1))) (Finite 0) \<and>
   float_ge ((\<lambda>m d. d 0) (\<lambda>_. NaN) (ptr_add (\<lambda>i. Finite (1 - of_int i)) (1 * 1))) (Finite 0) \<and>
   (\<exists>cx msk. ransac_trial (\<lambda>_. False) (\<lambda>i. Finite (1 - of_int i)) (\<lambda>_. NaN) (Finite 2) 1 2
      (\<lambda>m d. d 0) = Inr (cx, msk))"
proof -
  let ?data = "\<lambda>i::int. Finite (1 - of_int i)"
  let ?mev = "\<lambda>(m::cfloat array) (d::cfloat array). d 0"
  have neg: "\<not> float_ge (?mev (\<lambda>_. NaN) (ptr_add ?data (2 * 1))) (Finite 0)"
    by (simp add: ptr_add_def)
  then have ex: "\<exists>i. 0 \<le> i \<and> i < 3 \<and> \<not> float_ge (?mev (\<lambda>_. NaN) (ptr_add ?data (i * 1))) (Finite 0)"
    by (intro exI[of _ 2]) simp
  have ok0: "float_ge (?mev (\<lambda>_. NaN) (ptr_add ?data (0 * 1))) (Finite 0)"
    and ok1: "float_ge (?mev (\<lambda>_. NaN) (ptr_add ?data (1 * 1))) (Finite 0)"
    by (simp_all add: ptr_add_def)
  have all: "\<forall>i. 0 \<le> i \<and> i < 2 \<longrightarrow> float_ge (?mev (\<lambda>_. NaN) (ptr_add ?data (i * 1))) (Finite 0)"
  proof (intro allI impI)
    fix i :: int
    assume "0 \<le> i \<and> i < 2"
    then have "i = 0 \<or> i = 1" by arith
    with ok0 ok1 show "float_ge (?mev (\<lambda>_. NaN) (ptr_add ?data (i * 1))) (Finite 0)" by auto
  qed
  note a = ransac_trial_assertion[of "Finite (- 1)" 3 ?mev "\<lambda>_. NaN" ?data 1 "\<lambda>_. False" "Finite 2"]
  note b = ransac_trial_assertion[of "Finite (- 1)" 2 ?mev "\<lambda>_. NaN" ?data 1 "\<lambda>_. False" "Finite 2"]
  from a ex have "ransac_trial (\<lambda>_. False) ?data (\<lambda>_. NaN) (Finite 2) 1 3 ?mev = Inl AssertionFailed"
    by blast
  moreover from b all
  have "\<exists>cx msk. ransac_trial (\<lambda>_. False) ?data (\<lambda>_. NaN) (Finite 2) 1 2 ?mev = Inr (cx, msk)"
    by blast
  moreover have "float_lt (Finite (- 1)) (Finite 0)" by simp
  moreover from a this have "\<not> float_ge (Finite (- 1)) (Finite 0)" by blast
  ultimately show ?thesis using neg ok0 ok1 by blast
qed

section \<open>The sampler: sorted, distinct, in range\<close>

lemma compare_ints_le: "compare_ints x y \<le> 0 \<longleftrightarrow> x \<le> y"
  by (simp add: compare_ints_def)

lemma qsort_insert_ints: "qsort_insert compare_ints x xs = insort x xs"
  by (induction xs) (simp_all add: compare_ints_le)

lemma qsort_list_ints: "qsort_list compare_ints xs = sort xs"
  by (induction xs) (simp_all add: qsort_insert_ints)

lemma store_list_apply:
  "store_list t i xs j = (if i \<le> j \<and> j < i + int (length xs) then xs ! nat (j - i) else t j)"
proof (induction xs arbitrary: t i)
  case Nil
  then show ?case by auto
next
  case (Cons x xs)
  have step: "store_list (t(i := x)) (i + 1) xs j =
      (if i + 1 \<le> j \<and> j < i + 1 + int (length xs) then xs ! nat (j - (i + 1))
       else (t(i := x)) j)"
    by (rule Cons.IH)
  have "i + 1 \<le> j \<Longrightarrow> nat (j - i) = Suc (nat (j - (i + 1)))" by simp
  then show ?case unfolding store_list.simps step by auto
qed

lemma qsort_ints_apply:
  "qsort t n compare_ints j =
     (if 0 \<le> j \<and> j < n then sort (map t [0..n - 1]) ! nat j else t j)"
  by (simp add: qsort_def qsort_list_ints store_list_apply)

lemma qsort_ints_sorted:
  assumes "0 \<le> i" "i \<le> j" "j < n"
  shows "qsort t n compare_ints i \<le> qsort t n compare_ints j"
proof -
  have "sorted (sort (map t [0..n - 1]))" by simp
  moreover have "nat i \<le> nat j" "nat j < length (sort (map t [0..n - 1]))"
    using assms by simp_all
  ultimately have "sort (map t [0..n - 1]) ! nat i \<le> sort (map t [0..n - 1]) ! nat j"
    by (rule sorted_nth_mono)
  then show ?thesis using assms by (simp add: qsort_ints_apply)
qed

lemma qsort_ints_values:
  assumes "0 \<le> i" "i < n"
  shows "\<exists>j. 0 \<le> j \<and> j < n \<and> qsort t n compare_ints i = t j"
proof -
  have "sort (map t [0..n - 1]) ! nat i \<in> set (sort (map t [0..n - 1]))"
    using assms by (intro nth_mem) simp
  then have "sort (map t [0..n - 1]) ! nat i \<in> t ` {0..n - 1}" by simp
  then show ?thesis using assms by (auto simp: qsort_ints_apply)
qed

lemma are_different_scan_iff:
  "are_different_scan t i n \<longleftrightarrow> (\<forall>j. i \<le> j \<and> j < n \<longrightarrow> t (j - 1) \<noteq> t j)"
proof (induction t i n rule: are_different_scan.induct)
  case (1 t i n)
  show ?case
  proof (cases "i < n")
    case False
    then show ?thesis by (simp add: are_different_scan.simps)
  next
    case True
    show ?thesis
    proof (cases "t (i - 1) = t i")
      case eq: True
      with True show ?thesis by (subst are_different_scan.simps) auto
    next
      case neq: False
      have "(\<forall>j. i \<le> j \<and> j < n \<longrightarrow> t (j - 1) \<noteq> t j) \<longleftrightarrow> (\<forall>j. i + 1 \<le> j \<and> j < n \<longrightarrow> t (j - 1) \<noteq> t j)"
      proof (intro iffI allI impI)
        fix j assume h: "\<forall>j. i + 1 \<le> j \<and> j < n \<longrightarrow> t (j - 1) \<noteq> t j" and j: "i \<le> j \<and> j < n"
        show "t (j - 1) \<noteq> t j"
        proof (cases "j = i")
          case True
          with neq show ?thesis by simp
        next
          case False
          with j h show ?thesis by simp
        qed
      qed auto
      with "1.IH"[OF True neq] True neq show ?thesis
        by (subst are_different_scan.simps) simp
    qed
  qed
qed

lemma are_different_increasing:
  assumes "are_different t n = (t', True)" and "0 \<le> i" "i < j" "j < n"
  shows "t' i < t' j"
proof -
  from assms(1) have t': "t' = qsort t n compare_ints"
    and adj: "\<forall>j. 1 \<le> j \<and> j < n \<longrightarrow> t' (j - 1) \<noteq> t' j"
    by (auto simp: are_different_def Let_def are_different_scan_iff)
  have "t' i \<le> t' (j - 1)" unfolding t' using assms(2-4) by (intro qsort_ints_sorted) auto
  moreover have "t' (j - 1) \<le> t' j" unfolding t' using assms(2-4) by (intro qsort_ints_sorted) auto
  moreover have "t' (j - 1) \<noteq> t' j" using adj assms(2-4) by simp
  ultimately show ?thesis by simp
qed

lemma are_different_values:
  assumes "are_different t n = (t', d)" and "0 \<le> i" "i < n"
  shows "\<exists>j. 0 \<le> j \<and> j < n \<and> t' i = t j"
  using assms qsort_ints_values[of i n t] by (auto simp: are_different_def Let_def)

lemma random_index_Inr:
  "random_index rs a b pos = Inr (r, pos') \<Longrightarrow>
     a \<le> r \<and> r < b \<and> pos' = Suc pos \<and> r = a + c_rem (int (rs pos)) (b - a)"
  by (auto simp: random_index_def Let_def split: if_splits)

lemma c_rem_nonneg: "0 < y \<Longrightarrow> c_rem (int x) y = int x mod y"
  by (cases "x = 0") (simp_all add: c_rem_def)

lemma random_index_positive:
  assumes "a < b"
  shows "random_index rs a b pos = Inr (a + int (rs pos) mod (b - a), Suc pos)"
proof -
  have "int (rs pos) mod (b - a) < b - a" using assms by (intro pos_mod_bound) simp
  moreover have "0 \<le> int (rs pos) mod (b - a)" using assms by (intro pos_mod_sign) simp
  ultimately have "a \<le> a + int (rs pos) mod (b - a)" "a + int (rs pos) mod (b - a) < b"
    by linarith+
  then show ?thesis using assms by (simp add: random_index_def c_rem_nonneg Let_def)
qed

lemma random_index_zero: "random_index rs a a pos = Inl DivisionByZero"
  by (simp add: random_index_def)

lemma random_index_Inr_positive:
  assumes "random_index rs a b pos = Inr (r, pos')"
  shows "a < b \<and> r = a + int (rs pos) mod (b - a)"
proof -
  from random_index_Inr[OF assms] have "a < b" by simp
  with assms random_index_positive[of a b rs pos] show ?thesis by simp
qed

lemma random_index_no_division_by_zero:
  "b \<noteq> a \<Longrightarrow> random_index rs a b pos \<noteq> Inl DivisionByZero"
  by (simp add: random_index_def Let_def)

lemma fill_batch_result:
  assumes "fill_batch rs idx n a b pos = Inr (idx', pos')" and "0 \<le> n"
  shows "batch_inv rs idx a b pos n (idx', pos')"
proof (rule for_loop_invariant[OF assms(1)[unfolded fill_batch_def] assms(2)])
  show "batch_inv rs idx a b pos 0 (idx, pos)"
    by (auto simp: batch_inv_def)
next
  fix j t t'
  assume j: "0 \<le> j" and inv: "batch_inv rs idx a b pos j t"
    and body: "(case t of (idx, pos) \<Rightarrow>
                  case random_index rs a b pos of
                    Inl e \<Rightarrow> Inl e
                  | Inr (r, pos) \<Rightarrow> Inr (idx(j := r), pos)) = Inr t'"
  obtain ix p where t: "t = (ix, p)" by (cases t)
  from body t obtain r p' where r: "random_index rs a b p = Inr (r, p')" and t': "t' = (ix(j := r), p')"
    by (auto split: sum.splits)
  from inv t have p: "p = pos + nat j" by (simp add: batch_inv_def)
  from random_index_Inr[OF r] inv t j show "batch_inv rs idx a b pos (j + 1) t'"
    unfolding t' batch_inv_def p by (auto simp: nat_add_distrib)
qed

lemma fill_batch_negative: "n \<le> 0 \<Longrightarrow> fill_batch rs idx n a b pos = Inr (idx, pos)"
  by (simp add: fill_batch_def for_loop_stop)

lemma fill_batch_range:
  assumes "fill_batch rs idx n a b pos = Inr (idx', pos')" and "0 \<le> i" "i < n"
  shows "a \<le> idx' i \<and> idx' i < b"
  using fill_batch_result[OF assms(1)] assms(2,3) by (auto simp: batch_inv_def)

lemma are_different_sample_ok:
  assumes "fill_batch rs idx n a b pos = Inr (idx1, pos1)"
    and "are_different idx1 n = (idx2, True)"
  shows "sample_ok idx2 n a b"
proof -
  have "idx2 i < idx2 j" if "0 \<le> i \<and> i < j \<and> j < n" for i j
    using that are_different_increasing[OF assms(2)] by simp
  moreover have "a \<le> idx2 i \<and> idx2 i < b" if i: "0 \<le> i \<and> i < n" for i
  proof -
    from i are_different_values[OF assms(2)] obtain j where "0 \<le> j" "j < n" "idx2 i = idx1 j"
      by blast
    with fill_batch_range[OF assms(1)] show ?thesis by simp
  qed
  ultimately show ?thesis unfolding sample_ok_def by blast
qed

lemma fill_random_indices_loop_result:
  assumes "fill_random_indices_loop rs idx n a b safecount pos = Inr (idx', safecount', pos')"
    and "safecount \<le> 9"
  shows "safecount' \<le> 10 \<and> (safecount' \<noteq> 10 \<longrightarrow> sample_ok idx' n a b)"
  using assms
proof (induction rs idx n a b safecount pos rule: fill_random_indices_loop.induct)
  case (1 rs idx n a b safecount pos)
  from "1.prems"(1) obtain idx1 pos1 where fb: "fill_batch rs idx n a b pos = Inr (idx1, pos1)"
    by (subst (asm) fill_random_indices_loop.simps) (auto split: sum.splits)
  obtain idx2 d where ad: "are_different idx1 n = (idx2, d)" by (cases "are_different idx1 n")
  show ?case
  proof (cases "safecount + 1 < 10")
    case False
    with "1.prems" fb show ?thesis
      by (subst (asm) fill_random_indices_loop.simps) (auto simp: Let_def)
  next
    case True
    show ?thesis
    proof (cases d)
      case True
      with "1.prems" fb ad \<open>safecount + 1 < 10\<close> have "idx' = idx2" "safecount' = safecount + 1"
        by (subst (asm) fill_random_indices_loop.simps; simp add: Let_def)+
      moreover from True ad have "are_different idx1 n = (idx2, True)" by simp
      ultimately show ?thesis
        using are_different_sample_ok[OF fb] \<open>safecount + 1 < 10\<close> by simp
    next
      case False
      with "1.prems" fb ad True
      have rec: "fill_random_indices_loop rs idx2 n a b (safecount + 1) pos1 = Inr (idx', safecount', pos')"
        by (subst (asm) fill_random_indices_loop.simps) (simp add: Let_def)
      from "1.IH"[OF fb refl refl True ad[symmetric] _ rec] False True show ?thesis by simp
    qed
  qed
qed

lemma fill_random_indices_sample_ok:
  assumes "fill_random_indices rs idx n a b pos = Inr (idx', pos')"
  shows "sample_ok idx' n a b"
proof -
  from assms obtain sc where l: "fill_random_indices_loop rs idx n a b 0 pos = Inr (idx', sc, pos')"
    and sc: "sc \<noteq> 10"
    by (auto simp: fill_random_indices_def fail_def split: sum.splits if_splits)
  from fill_random_indices_loop_result[OF l] sc show ?thesis by simp
qed

section \<open>The sampled points\<close>

lemma sample_row:
  "for_pure 0 d (\<lambda>k x. x(d * j + k := data (d * ij + k))) x =
     (\<lambda>p. if d * j \<le> p \<and> p < d * j + d then data (d * ij + (p - d * j)) else x p)"
proof (cases "0 \<le> d")
  case False
  then show ?thesis by (auto simp: for_pure_stop fun_eq_iff)
next
  case True
  have "for_pure 0 d (\<lambda>k x. x(d * j + k := data (d * ij + k))) x =
     (\<lambda>p. if d * j \<le> p \<and> p < d * j + d then data (d * ij + (p - d * j)) else x p)"
  proof (rule for_pure_invariant[where P = "\<lambda>k x'. x' =
       (\<lambda>p. if d * j \<le> p \<and> p < d * j + k then data (d * ij + (p - d * j)) else x p)", OF True])
    show "x = (\<lambda>p. if d * j \<le> p \<and> p < d * j + 0 then data (d * ij + (p - d * j)) else x p)"
      by (auto simp: fun_eq_iff)
  next
    fix k t
    assume "0 \<le> k" and t: "t = (\<lambda>p. if d * j \<le> p \<and> p < d * j + k then data (d * ij + (p - d * j)) else x p)"
    show "t(d * j + k := data (d * ij + k)) =
        (\<lambda>p. if d * j \<le> p \<and> p < d * j + (k + 1) then data (d * ij + (p - d * j)) else x p)"
      using \<open>0 \<le> k\<close> unfolding t by (auto simp: fun_eq_iff)
  qed
  then show ?thesis .
qed

lemma row_below: 
  fixes d :: int
  assumes "0 \<le> k" "k < d" "j0 < j"
  shows "d * j0 + k < d * j"
proof -
  have "d * j0 + k < d * j0 + d" using assms by simp
  also have "\<dots> = d * (j0 + 1)" by (simp add: algebra_simps)
  also have "\<dots> \<le> d * j" using assms by (intro mult_left_mono) auto
  finally show ?thesis .
qed

lemma ransac_sample_points_apply:
  assumes "0 \<le> j" "j < nfit" "0 \<le> k" "k < datadim"
  shows "ransac_sample_points x data datadim indices nfit (datadim * j + k) =
           data (datadim * indices j + k)"
proof -
  let ?P = "\<lambda>j x'. \<forall>j0 k. 0 \<le> j0 \<and> j0 < j \<and> 0 \<le> k \<and> k < datadim \<longrightarrow>
               x' (datadim * j0 + k) = data (datadim * indices j0 + k)"
  have "?P nfit (ransac_sample_points x data datadim indices nfit)"
    unfolding ransac_sample_points_def
  proof (rule for_pure_invariant[where P = ?P])
    show "0 \<le> nfit" using assms by simp
    show "?P 0 x" by auto
  next
    fix j t
    assume j: "0 \<le> j" and inv: "?P j t"
    show "?P (j + 1) (for_pure 0 datadim
            (\<lambda>k x. x(datadim * j + k := data (datadim * indices j + k))) t)"
      unfolding sample_row
    proof (intro allI impI)
      fix j0 k
      assume h: "0 \<le> j0 \<and> j0 < j + 1 \<and> 0 \<le> k \<and> k < datadim"
      show "(if datadim * j \<le> datadim * j0 + k \<and> datadim * j0 + k < datadim * j + datadim
             then data (datadim * indices j + (datadim * j0 + k - datadim * j))
             else t (datadim * j0 + k)) = data (datadim * indices j0 + k)"
      proof (cases "j0 = j")
        case True
        with h show ?thesis by simp
      next
        case False
        with h have "j0 < j" by simp
        with row_below[of k datadim j0 j] h have "datadim * j0 + k < datadim * j" by simp
        with inv h \<open>j0 < j\<close> show ?thesis by simp
      qed
    qed
  qed
  with assms show ?thesis by blast
qed

section \<open>The sampler: what a normal return gives\<close>

lemma fill_random_indices_example:
  "fill_random_indices (\<lambda>i. if i < 4 then 0 else 7 - i) (\<lambda>_. 7) 2 0 2 0
     = Inr ((\<lambda>_. 7)(0 := 0, 1 := 1), 6)"
  by (simp add: sampler_eval)

lemma ransac_candidate_example:
  "ransac_candidate (\<lambda>i. if i < 4 then 0 else 7 - i)
     \<lparr>u_best_model = \<lambda>_. NaN, u_best_mask = \<lambda>_. False, u_tmp_mask = \<lambda>_. False,
      u_indices = \<lambda>_. 7, u_x = \<lambda>_. NaN\<rparr>
     (\<lambda>_. False) (\<lambda>i. Finite (of_int i)) 1 2 (\<lambda>m d. d 0) (\<lambda>x. x) 2 (Finite 1) None 0
   = Inr (Some ((\<lambda>_. NaN)(0 := Finite 0, 1 := Finite 1), 1), (\<lambda>_. False)(0 := True, 1 := False), 6)"
  by (simp add: ransac_candidate_def fill_random_indices_example ransac_sample_points_def
      for_pure.simps ransac_trial_def for_loop.simps ptr_add_def)

lemma sample_ok_distinct:
  assumes "sample_ok idx n a b" and "0 \<le> i \<and> i < n \<and> 0 \<le> j \<and> j < n \<and> i \<noteq> j"
  shows "idx i \<noteq> idx j"
proof (cases "i < j")
  case True
  with assms have "idx i < idx j" unfolding sample_ok_def by blast
  then show ?thesis by simp
next
  case False
  with assms have "j < i" by simp
  with assms have "idx j < idx i" unfolding sample_ok_def by blast
  then show ?thesis by simp
qed

lemma ransac_candidate_sample:
  assumes "ransac_candidate rs u tmp data datadim n mev mgen nfit max_error macc pos
             = Inr (res, tmp', pos')"
  shows "\<exists>indices. fill_random_indices rs (u_indices u) nfit 0 n pos = Inr (indices, pos') \<and>
           (\<forall>model c. res = Some (model, c) \<longrightarrow>
              model = mgen (ransac_sample_points (u_x u) data datadim indices nfit))"
  using assms
  by (auto simp: ransac_candidate_def Let_def split: sum.splits if_splits option.splits)

text \<open>
  C4. When \<open>fill_random_indices\<close> returns normally, the \<open>nfit\<close> indices it leaves are
  pairwise distinct and lie in \<open>[a, b)\<close>, which is \<open>[0, n)\<close> for the call in \<open>ransac\<close>. So in
  a trial the model generator is applied to the points of a sample of pairwise distinct
  indices within \<open>[0, n)\<close>, and any model the trial scores was generated from such a sample.
\<close>

theorem sampler_indices_distinct_in_range:
  "(fill_random_indices rs idx nfit a b pos = Inr (idx', pos') \<longrightarrow>
      (\<forall>i j. 0 \<le> i \<and> i < nfit \<and> 0 \<le> j \<and> j < nfit \<and> i \<noteq> j \<longrightarrow> idx' i \<noteq> idx' j) \<and>
      (\<forall>i. 0 \<le> i \<and> i < nfit \<longrightarrow> a \<le> idx' i \<and> idx' i < b)) \<and>
   (ransac_candidate rs u tmp data datadim n mev mgen nfit max_error macc pos
      = Inr (res, tmp', pos'') \<longrightarrow>
      (\<exists>indices.
         fill_random_indices rs (u_indices u) nfit 0 n pos = Inr (indices, pos'') \<and>
         (\<forall>i j. 0 \<le> i \<and> i < nfit \<and> 0 \<le> j \<and> j < nfit \<and> i \<noteq> j \<longrightarrow>
            indices i \<noteq> indices j) \<and>
         (\<forall>i. 0 \<le> i \<and> i < nfit \<longrightarrow> 0 \<le> indices i \<and> indices i < n) \<and>
         (\<forall>model c. res = Some (model, c) \<longrightarrow>
            model = mgen (ransac_sample_points (u_x u) data datadim indices nfit))))"
proof (intro conjI impI)
  assume "fill_random_indices rs idx nfit a b pos = Inr (idx', pos')"
  then have ok: "sample_ok idx' nfit a b" by (rule fill_random_indices_sample_ok)
  show "\<forall>i j. 0 \<le> i \<and> i < nfit \<and> 0 \<le> j \<and> j < nfit \<and> i \<noteq> j \<longrightarrow> idx' i \<noteq> idx' j"
    using sample_ok_distinct[OF ok] by blast
  show "\<forall>i. 0 \<le> i \<and> i < nfit \<longrightarrow> a \<le> idx' i \<and> idx' i < b"
    using ok unfolding sample_ok_def by blast
next
  assume "ransac_candidate rs u tmp data datadim n mev mgen nfit max_error macc pos
            = Inr (res, tmp', pos'')"
  from ransac_candidate_sample[OF this] obtain indices
    where f: "fill_random_indices rs (u_indices u) nfit 0 n pos = Inr (indices, pos'')"
      and m: "\<forall>model c. res = Some (model, c) \<longrightarrow>
                model = mgen (ransac_sample_points (u_x u) data datadim indices nfit)"
    by blast
  from f have ok: "sample_ok indices nfit 0 n" by (rule fill_random_indices_sample_ok)
  have "\<forall>i j. 0 \<le> i \<and> i < nfit \<and> 0 \<le> j \<and> j < nfit \<and> i \<noteq> j \<longrightarrow> indices i \<noteq> indices j"
    using sample_ok_distinct[OF ok] by blast
  moreover have "\<forall>i. 0 \<le> i \<and> i < nfit \<longrightarrow> 0 \<le> indices i \<and> indices i < n"
    using ok unfolding sample_ok_def by blast
  ultimately show "\<exists>indices.
         fill_random_indices rs (u_indices u) nfit 0 n pos = Inr (indices, pos'') \<and>
         (\<forall>i j. 0 \<le> i \<and> i < nfit \<and> 0 \<le> j \<and> j < nfit \<and> i \<noteq> j \<longrightarrow>
            indices i \<noteq> indices j) \<and>
         (\<forall>i. 0 \<le> i \<and> i < nfit \<longrightarrow> 0 \<le> indices i \<and> indices i < n) \<and>
         (\<forall>model c. res = Some (model, c) \<longrightarrow>
            model = mgen (ransac_sample_points (u_x u) data datadim indices nfit))"
    using f m by blast
qed

theorem sampler_indices_distinct_in_range_witness:
  "fill_random_indices (\<lambda>i. if i < 4 then 0 else 7 - i) (\<lambda>_. 7) 2 0 2 0
     = Inr ((\<lambda>_. 7)(0 := 0, 1 := 1), 6) \<and>
   ((\<lambda>_. 7)(0 := 0, 1 := 1) :: int array) (0::int) \<noteq> ((\<lambda>_. 7)(0 := 0, 1 := 1) :: int array) (1::int) \<and>
   (0::int) \<le> ((\<lambda>_. 7)(0 := 0, 1 := 1) :: int array) (1::int) \<and>
   ((\<lambda>_. 7)(0 := 0, 1 := 1) :: int array) (1::int) < (2::int) \<and>
   ransac_candidate (\<lambda>i. if i < 4 then 0 else 7 - i)
     \<lparr>u_best_model = \<lambda>_. NaN, u_best_mask = \<lambda>_. False, u_tmp_mask = \<lambda>_. False,
      u_indices = \<lambda>_. 7, u_x = \<lambda>_. NaN\<rparr>
     (\<lambda>_. False) (\<lambda>i. Finite (of_int i)) 1 2 (\<lambda>m d. d 0) (\<lambda>x. x) 2 (Finite 1) None 0
   = Inr (Some ((\<lambda>_. NaN)(0 := Finite 0, 1 := Finite 1), 1), (\<lambda>_. False)(0 := True, 1 := False), 6) \<and>
   (\<lambda>_. NaN)(0 := Finite 0, 1 := Finite 1)
     = (\<lambda>x. x) (ransac_sample_points (\<lambda>_. NaN) (\<lambda>i. Finite (of_int i)) 1
          ((\<lambda>_. 7)(0 := 0, 1 := 1) :: int array) 2)"
proof -
  let ?u = "\<lparr>u_best_model = \<lambda>_. NaN, u_best_mask = \<lambda>_. False, u_tmp_mask = \<lambda>_. False,
      u_indices = \<lambda>_. 7, u_x = \<lambda>_. NaN\<rparr>"
  let ?ix = "(\<lambda>_. 7)(0 := 0, 1 := 1) :: int array"
  note t = sampler_indices_distinct_in_range[of "\<lambda>i. if i < 4 then 0 else 7 - i" "\<lambda>_. 7" 2 0 2 0
      ?ix 6 ?u "\<lambda>_. False" "\<lambda>i. Finite (of_int i)" 1 2 "\<lambda>m d. d 0"
      "\<lambda>x. x" "Finite 1" None
      "Some ((\<lambda>_. NaN)(0 := Finite 0, 1 := Finite 1), 1)" "(\<lambda>_. False)(0 := True, 1 := False)" 6]
  from t fill_random_indices_example
  have d: "\<forall>i j. 0 \<le> i \<and> i < 2 \<and> 0 \<le> j \<and> j < 2 \<and> i \<noteq> j \<longrightarrow> ?ix i \<noteq> ?ix j"
    and r: "\<forall>i. 0 \<le> i \<and> i < 2 \<longrightarrow> 0 \<le> ?ix i \<and> ?ix i < 2"
    by blast+
  from t fill_random_indices_example ransac_candidate_example
  have m: "(\<lambda>_. NaN)(0 := Finite 0, 1 := Finite 1)
     = (\<lambda>x. x) (ransac_sample_points (\<lambda>_. NaN) (\<lambda>i. Finite (of_int i)) 1 ?ix 2)"
    by simp
  from d[rule_format, of 0 1] have "?ix 0 \<noteq> ?ix 1" by simp
  moreover from r[rule_format, of 1] have "0 \<le> ?ix 1 \<and> ?ix 1 < 2" by simp
  ultimately show ?thesis
    using fill_random_indices_example ransac_candidate_example m by blast
qed

lemma sample_ok_sorted_list:
  assumes "sample_ok idx n a b"
  shows "map idx [0..n - 1] = sorted_list_of_set (idx ` {0..n - 1})"
proof -
  have "sorted_wrt (\<lambda>i j. idx i < idx j) [0..n - 1]"
  proof (rule sorted_wrt_mono_rel[of _ "(<)"])
    fix i j assume "i \<in> set [0..n - 1]" "j \<in> set [0..n - 1]" "i < j"
    with assms show "idx i < idx j" unfolding sample_ok_def by simp
  qed simp
  then have "sorted_wrt (<) (map idx [0..n - 1])" by (simp add: sorted_wrt_map)
  then have "sorted (map idx [0..n - 1])" "distinct (map idx [0..n - 1])"
    by (simp_all add: strict_sorted_iff)
  then have "sorted_list_of_set (set (map idx [0..n - 1])) = map idx [0..n - 1]"
    by (rule sorted_list_of_set.idem_if_sorted_distinct)
  then show ?thesis by simp
qed

text \<open>
  C9. \<open>are_different\<close> leaves the vector sorted. So the indices \<open>fill_random_indices\<close>
  returns are strictly increasing: their order is that of the sorted list of their set,
  whatever the order of the draws. The sampled points are copied into \<^verbatim>\<open>x\<close> in that
  order: point \<open>j\<close> of \<^verbatim>\<open>x\<close> is the data point of the \<open>j\<close>-th smallest index.
\<close>

theorem sampler_indices_increasing:
  "(are_different t n = (t', different) \<longrightarrow>
      (\<forall>i j. 0 \<le> i \<and> i \<le> j \<and> j < n \<longrightarrow> t' i \<le> t' j)) \<and>
   (fill_random_indices rs idx nfit a b pos = Inr (idx', pos') \<longrightarrow>
      (\<forall>i j. 0 \<le> i \<and> i < j \<and> j < nfit \<longrightarrow> idx' i < idx' j) \<and>
      map idx' [0..nfit - 1] = sorted_list_of_set (idx' ` {0..nfit - 1}) \<and>
      (\<forall>j k. 0 \<le> j \<and> j < nfit \<and> 0 \<le> k \<and> k < datadim \<longrightarrow>
         ransac_sample_points x data datadim idx' nfit (datadim * j + k)
           = data (datadim * idx' j + k)))"
proof (intro conjI impI)
  assume "are_different t n = (t', different)"
  then have "t' = qsort t n compare_ints" by (auto simp: are_different_def Let_def)
  then show "\<forall>i j. 0 \<le> i \<and> i \<le> j \<and> j < n \<longrightarrow> t' i \<le> t' j"
    using qsort_ints_sorted by blast
next
  assume "fill_random_indices rs idx nfit a b pos = Inr (idx', pos')"
  then have ok: "sample_ok idx' nfit a b" by (rule fill_random_indices_sample_ok)
  show "\<forall>i j. 0 \<le> i \<and> i < j \<and> j < nfit \<longrightarrow> idx' i < idx' j"
    using ok unfolding sample_ok_def by blast
  show "map idx' [0..nfit - 1] = sorted_list_of_set (idx' ` {0..nfit - 1})"
    using ok by (rule sample_ok_sorted_list)
  show "\<forall>j k. 0 \<le> j \<and> j < nfit \<and> 0 \<le> k \<and> k < datadim \<longrightarrow>
         ransac_sample_points x data datadim idx' nfit (datadim * j + k)
           = data (datadim * idx' j + k)"
    using ransac_sample_points_apply by blast
qed

lemma are_different_example:
  "are_different ((\<lambda>_. 7)(0 := 5, 1 := 3)) 2 = ((\<lambda>_. 7)(0 := 3, 1 := 5), True)"
  by (simp add: sampler_eval)

lemma fill_random_indices_example2:
  "fill_random_indices (\<lambda>i. if i = 0 then 5 else 3) (\<lambda>_. 7) 2 0 9 0
     = Inr ((\<lambda>_. 7)(0 := 3, 1 := 5), 2)"
  by (simp add: sampler_eval)

theorem sampler_indices_increasing_witness:
  "are_different ((\<lambda>_. 7)(0 := 5, 1 := 3)) 2 = ((\<lambda>_. 7)(0 := 3, 1 := 5), True) \<and>
   ((\<lambda>_. 7)(0 := 3, 1 := 5) :: int array) 0 \<le> ((\<lambda>_. 7)(0 := 3, 1 := 5) :: int array) 1 \<and>
   fill_random_indices (\<lambda>i. if i = 0 then 5 else 3) (\<lambda>_. 7) 2 0 9 0
     = Inr ((\<lambda>_. 7)(0 := 3, 1 := 5), 2) \<and>
   ((\<lambda>_. 7)(0 := 3, 1 := 5) :: int array) 0 < ((\<lambda>_. 7)(0 := 3, 1 := 5) :: int array) 1 \<and>
   map ((\<lambda>_. 7)(0 := 3, 1 := 5) :: int array) [0..2 - 1]
     = sorted_list_of_set (((\<lambda>_. 7)(0 := 3, 1 := 5) :: int array) ` {0..2 - 1}) \<and>
   ransac_sample_points (\<lambda>_. NaN) (\<lambda>i. Finite (of_int i)) 1
       ((\<lambda>_. 7)(0 := 3, 1 := 5) :: int array) 2 (1 * 1 + 0)
     = (\<lambda>i. Finite (of_int i)) (1 * ((\<lambda>_. 7)(0 := 3, 1 := 5) :: int array) 1 + 0)"
proof -
  let ?t = "(\<lambda>_. 7)(0 := 5, 1 := 3) :: int array"
  let ?ix = "(\<lambda>_. 7)(0 := 3, 1 := 5) :: int array"
  note t = sampler_indices_increasing[of ?t 2 ?ix True "\<lambda>i. if i = 0 then 5 else 3" "\<lambda>_. 7" 2 0 9 0
      ?ix 2 1 "\<lambda>_. NaN" "\<lambda>i. Finite (of_int i)"]
  from t are_different_example
  have s: "\<forall>i j. 0 \<le> i \<and> i \<le> j \<and> j < 2 \<longrightarrow> ?ix i \<le> ?ix j" by blast
  from t fill_random_indices_example2
  have i: "\<forall>i j. 0 \<le> i \<and> i < j \<and> j < 2 \<longrightarrow> ?ix i < ?ix j"
    and l: "map ?ix [0..2 - 1] = sorted_list_of_set (?ix ` {0..2 - 1})"
    and p: "\<forall>j k. 0 \<le> j \<and> j < 2 \<and> 0 \<le> k \<and> k < 1 \<longrightarrow>
         ransac_sample_points (\<lambda>_. NaN) (\<lambda>i. Finite (of_int i)) 1 ?ix 2 (1 * j + k)
           = (\<lambda>i. Finite (of_int i)) (1 * ?ix j + k)"
    by blast+
  from s[rule_format, of 0 1] have "?ix 0 \<le> ?ix 1" by simp
  moreover from i[rule_format, of 0 1] have "?ix 0 < ?ix 1" by simp
  moreover from p[rule_format, of 1 0]
  have "ransac_sample_points (\<lambda>_. NaN) (\<lambda>i. Finite (of_int i)) 1 ?ix 2 (1 * 1 + 0)
           = (\<lambda>i. Finite (of_int i)) (1 * ?ix 1 + 0)"
    by simp
  ultimately show ?thesis
    using are_different_example fill_random_indices_example2 l by blast
qed

section \<open>The sampler: the tenth batch\<close>

text \<open>
  What the sampler does for a range \<open>[a, b)\<close> that is not empty, in terms of the batches it
  draws: it examines the first nine batches only. It returns at the first of them whose
  indices are pairwise distinct, and fails when there is none, with a tenth batch drawn
  and left unexamined. When the range holds fewer than \<open>n\<close> numbers no batch is distinct,
  and the sampler fails after its ten batches.
\<close>

lemma first_n_nth:
  assumes "i < nat n"
  shows "map t [0..n - 1] ! i = t (int i)"
  using assms by simp

lemma fill_batch_drawn:
  assumes "a < b"
  shows "\<exists>idx1. fill_batch rs idx n a b pos = Inr (idx1, pos + nat n) \<and>
                 map idx1 [0..n - 1] = drawn_batch rs n a b pos"
proof -
  have "\<exists>s'. fill_batch rs idx n a b pos = Inr s'"
    unfolding fill_batch_def
    by (rule for_loop_total[where P = "\<lambda>_ _. True"])
      (auto simp: random_index_positive[OF assms])
  then obtain idx1 pos1 where f: "fill_batch rs idx n a b pos = Inr (idx1, pos1)" by auto
  show ?thesis
  proof (cases "0 \<le> n")
    case False
    with f show ?thesis by (simp add: fill_batch_negative drawn_batch_def)
  next
    case True
    from fill_batch_result[OF f True]
    have p: "pos1 = pos + nat n"
      and v: "\<forall>j. 0 \<le> j \<and> j < n \<longrightarrow> idx1 j = a + c_rem (int (rs (pos + nat j))) (b - a)"
      by (auto simp: batch_inv_def)
    have "map idx1 [0..n - 1] = drawn_batch rs n a b pos"
    proof (rule nth_equalityI)
      show "length (map idx1 [0..n - 1]) = length (drawn_batch rs n a b pos)"
        by (simp add: drawn_batch_def)
    next
      fix i assume "i < length (map idx1 [0..n - 1])"
      then have i: "i < nat n" by simp
      then have "map idx1 [0..n - 1] ! i = idx1 (int i)" by simp
      also have "\<dots> = a + c_rem (int (rs (pos + nat (int i)))) (b - a)" using v i by simp
      also have "\<dots> = a + int (rs (pos + i)) mod (b - a)" using assms by (simp add: c_rem_nonneg)
      also have "\<dots> = drawn_batch rs n a b pos ! i" using i by (simp add: drawn_batch_def)
      finally show "map idx1 [0..n - 1] ! i = drawn_batch rs n a b pos ! i" .
    qed
    with f p show ?thesis by simp
  qed
qed

lemma qsort_ints_first_n: "map (qsort t n compare_ints) [0..n - 1] = sort (map t [0..n - 1])"
proof (rule nth_equalityI)
  show "length (map (qsort t n compare_ints) [0..n - 1]) = length (sort (map t [0..n - 1]))"
    by simp
next
  fix i assume "i < length (map (qsort t n compare_ints) [0..n - 1])"
  then have i: "i < nat n" by simp
  then have "map (qsort t n compare_ints) [0..n - 1] ! i = qsort t n compare_ints (int i)" by simp
  also have "\<dots> = sort (map t [0..n - 1]) ! i"
  proof -
    from i have "int i < n" by (simp add: zless_nat_eq_int_zless)
    then show ?thesis by (simp add: qsort_ints_apply)
  qed
  finally show "map (qsort t n compare_ints) [0..n - 1] ! i = sort (map t [0..n - 1]) ! i" .
qed

lemma are_different_iff_distinct:
  assumes "are_different t n = (t', d)"
  shows "d \<longleftrightarrow> distinct (map t [0..n - 1])"
proof -
  from assms have t': "t' = qsort t n compare_ints"
    and d: "d \<longleftrightarrow> (\<forall>j. 1 \<le> j \<and> j < n \<longrightarrow> t' (j - 1) \<noteq> t' j)"
    by (auto simp: are_different_def Let_def are_different_scan_iff)
  have l: "map t' [0..n - 1] = sort (map t [0..n - 1])" unfolding t' by (rule qsort_ints_first_n)
  show ?thesis
  proof
    assume d
    with assms have "are_different t n = (t', True)" by simp
    from are_different_increasing[OF this] have inc: "\<And>i j. 0 \<le> i \<Longrightarrow> i < j \<Longrightarrow> j < n \<Longrightarrow> t' i < t' j" .
    have "distinct (map t' [0..n - 1])"
    proof (rule distinct_map[THEN iffD2], intro conjI inj_onI)
      fix x y assume "x \<in> set [0..n - 1]" "y \<in> set [0..n - 1]" "t' x = t' y"
      then show "x = y" using inc[of x y] inc[of y x] by (cases x y rule: linorder_cases) auto
    qed simp
    then show "distinct (map t [0..n - 1])" by (simp add: l)
  next
    assume "distinct (map t [0..n - 1])"
    then have dist: "distinct (map t' [0..n - 1])" by (simp add: l)
    have "t' (j - 1) \<noteq> t' j" if j: "1 \<le> j \<and> j < n" for j
    proof
      assume e: "t' (j - 1) = t' j"
      have l1: "nat (j - 1) < length (map t' [0..n - 1])"
        and l2: "nat j < length (map t' [0..n - 1])"
        using j by simp_all
      have "map t' [0..n - 1] ! nat (j - 1) = t' (int (nat (j - 1)))"
        using j by (intro first_n_nth) simp
      moreover have "map t' [0..n - 1] ! nat j = t' (int (nat j))"
        using j by (intro first_n_nth) simp
      moreover have "int (nat (j - 1)) = j - 1" "int (nat j) = j" using j by simp_all
      ultimately have "map t' [0..n - 1] ! nat (j - 1) = map t' [0..n - 1] ! nat j"
        using e by (simp only:)
      with nth_eq_iff_index_eq[OF dist l1 l2] have "nat (j - 1) = nat j" by blast
      with j show False by arith
    qed
    with d show d by blast
  qed
qed

lemma drawn_batch_shift:
  "drawn_batch rs n a b (pos + nat n + c * nat n) = drawn_batch rs n a b (pos + Suc c * nat n)"
  by (simp add: add.assoc add.commute)

lemma fill_random_indices_loop_outcome:
  assumes "a < b" and "safecount \<le> 9"
  shows "\<exists>idx' safecount' pos'.
           fill_random_indices_loop rs idx n a b safecount pos = Inr (idx', safecount', pos') \<and>
           (safecount' = 10 \<longleftrightarrow>
              (\<forall>c < nat (9 - safecount). \<not> distinct (drawn_batch rs n a b (pos + c * nat n))))"
  using assms
proof (induction rs idx n a b safecount pos rule: fill_random_indices_loop.induct)
  case (1 rs idx n a b safecount pos)
  from fill_batch_drawn[OF "1.prems"(1)] obtain idx1 where
    fb: "fill_batch rs idx n a b pos = Inr (idx1, pos + nat n)"
    and dr: "map idx1 [0..n - 1] = drawn_batch rs n a b pos"
    by blast
  obtain idx2 d where ad: "are_different idx1 n = (idx2, d)" by (cases "are_different idx1 n")
  from are_different_iff_distinct[OF ad] dr
  have d: "d \<longleftrightarrow> distinct (drawn_batch rs n a b pos)" by simp
  show ?case
  proof (cases "safecount + 1 < 10")
    case False
    with "1.prems" have sc: "safecount = 9" by simp
    have "fill_random_indices_loop rs idx n a b safecount pos = Inr (idx1, 10, pos + nat n)"
      using fb sc by (subst fill_random_indices_loop.simps) (simp add: Let_def)
    with sc show ?thesis by simp
  next
    case True
    show ?thesis
    proof (cases d)
      case True
      have "fill_random_indices_loop rs idx n a b safecount pos = Inr (idx2, safecount + 1, pos + nat n)"
        using fb ad True \<open>safecount + 1 < 10\<close>
        by (subst fill_random_indices_loop.simps) (simp add: Let_def)
      moreover have "\<not> (\<forall>c < nat (9 - safecount). \<not> distinct (drawn_batch rs n a b (pos + c * nat n)))"
      proof -
        have "0 < nat (9 - safecount)" using \<open>safecount + 1 < 10\<close> by simp
        moreover have "distinct (drawn_batch rs n a b (pos + 0 * nat n))" using True d by simp
        ultimately show ?thesis by blast
      qed
      ultimately show ?thesis using \<open>safecount + 1 < 10\<close> by simp
    next
      case False
      have step: "fill_random_indices_loop rs idx n a b safecount pos =
          fill_random_indices_loop rs idx2 n a b (safecount + 1) (pos + nat n)"
        using fb ad False True by (subst fill_random_indices_loop.simps) (simp add: Let_def)
      from True have "safecount + 1 \<le> 9" by simp
      from "1.IH"[OF fb refl refl True ad[symmetric] _ "1.prems"(1) this] False
      obtain idx' safecount' pos' where
        r: "fill_random_indices_loop rs idx2 n a b (safecount + 1) (pos + nat n)
              = Inr (idx', safecount', pos')"
        and iff: "safecount' = 10 \<longleftrightarrow>
              (\<forall>c < nat (9 - (safecount + 1)).
                 \<not> distinct (drawn_batch rs n a b (pos + nat n + c * nat n)))"
        by auto
      have "(\<forall>c < nat (9 - safecount). \<not> distinct (drawn_batch rs n a b (pos + c * nat n))) \<longleftrightarrow>
            (\<forall>c < nat (9 - (safecount + 1)).
                 \<not> distinct (drawn_batch rs n a b (pos + nat n + c * nat n)))"
      proof -
        have n9: "nat (9 - safecount) = Suc (nat (9 - (safecount + 1)))" using True by simp
        have "\<not> distinct (drawn_batch rs n a b (pos + 0 * nat n))" using False d by simp
        then show ?thesis
          unfolding n9 drawn_batch_shift by (auto simp: less_Suc_eq_0_disj)
      qed
      with r iff step show ?thesis by simp
    qed
  qed
qed

lemma sampler_fails_iff:
  assumes "a < b"
  shows "(fill_random_indices rs idx n a b pos = Inl (Fail ''could not generate any model'')) =
           (\<forall>c < 9. \<not> distinct (drawn_batch rs n a b (pos + c * nat n)))"
    and "(\<exists>idx' pos'. fill_random_indices rs idx n a b pos = Inr (idx', pos')) =
           (\<exists>c < 9. distinct (drawn_batch rs n a b (pos + c * nat n)))"
proof -
  from fill_random_indices_loop_outcome[OF assms, of 0 rs idx n pos]
  obtain idx' safecount' pos' where
    r: "fill_random_indices_loop rs idx n a b 0 pos = Inr (idx', safecount', pos')"
    and iff: "safecount' = 10 \<longleftrightarrow>
                (\<forall>c < 9. \<not> distinct (drawn_batch rs n a b (pos + c * nat n)))"
    by auto
  show "(fill_random_indices rs idx n a b pos = Inl (Fail ''could not generate any model'')) =
           (\<forall>c < 9. \<not> distinct (drawn_batch rs n a b (pos + c * nat n)))"
    using r iff by (simp add: fill_random_indices_def fail_def)
  show "(\<exists>idx' pos'. fill_random_indices rs idx n a b pos = Inr (idx', pos')) =
           (\<exists>c < 9. distinct (drawn_batch rs n a b (pos + c * nat n)))"
    using r iff by (auto simp: fill_random_indices_def fail_def)
qed

lemma drawn_batch_pigeonhole:
  assumes "a < b" and "b - a < n"
  shows "\<not> distinct (drawn_batch rs n a b p)"
proof
  assume d: "distinct (drawn_batch rs n a b p)"
  have "set (drawn_batch rs n a b p) \<subseteq> {a..<b}"
  proof
    fix x assume "x \<in> set (drawn_batch rs n a b p)"
    then obtain i where x: "x = a + int (rs (p + i)) mod (b - a)" by (auto simp: drawn_batch_def)
    have "0 \<le> int (rs (p + i)) mod (b - a)" using assms by (intro pos_mod_sign) simp
    moreover have "int (rs (p + i)) mod (b - a) < b - a" using assms by (intro pos_mod_bound) simp
    ultimately show "x \<in> {a..<b}" using x by simp
  qed
  then have "card (set (drawn_batch rs n a b p)) \<le> card {a..<b}" by (intro card_mono) simp_all
  moreover have "card (set (drawn_batch rs n a b p)) = nat n"
    using distinct_card[OF d] by (simp add: drawn_batch_def)
  ultimately show False using assms by simp
qed

lemma sampler_fails_when_too_few_points:
  assumes "a < b" and "b - a < n"
  shows "fill_random_indices rs idx n a b pos = Inl (Fail ''could not generate any model'')"
  using sampler_fails_iff(1)[OF assms(1)] drawn_batch_pigeonhole[OF assms] by simp

text \<open>
  C5. The loop draws a tenth batch, but \<^verbatim>\<open>safecount < 10 && !are_different(idx, n)\<close> does
  not examine it: with \<open>safecount\<close> at 10 the loop ends and \<^verbatim>\<open>fail\<close> is called. Here the
  random source gives nine batches \<open>(0, 0)\<close> and then the batch \<open>(0, 1)\<close>, whose two indices
  differ, and the sampler fails all the same; had the distinct batch been the ninth, the
  sampler would have returned it.
\<close>

theorem sampler_tenth_batch_not_examined:
  "fill_random_indices (\<lambda>i. if i = 19 then 1 else 0) (\<lambda>_. 7) 2 0 2 0
     = Inl (Fail ''could not generate any model'') \<and>
   0 + int ((\<lambda>i :: nat. if i = 19 then 1 else 0 :: nat) 18) mod (2 - 0)
     \<noteq> 0 + int ((\<lambda>i :: nat. if i = 19 then 1 else 0 :: nat) 19) mod (2 - 0) \<and>
   fill_random_indices (\<lambda>i. if i = 17 then 1 else 0) (\<lambda>_. 7) 2 0 2 0
     = Inr ((\<lambda>_. 7)(0 := 0, 1 := 1), 18)"
  by (simp add: sampler_eval)

section \<open>Division by zero\<close>

lemma fill_batch_no_division_by_zero:
  assumes "b \<noteq> a"
  shows "fill_batch rs idx n a b pos \<noteq> Inl DivisionByZero"
proof
  assume "fill_batch rs idx n a b pos = Inl DivisionByZero"
  from for_loop_error[OF this[unfolded fill_batch_def]]
  obtain j and ix :: "int array" and p where "(case random_index rs a b p of
            Inl e \<Rightarrow> Inl e
          | Inr (r, pos) \<Rightarrow> Inr (ix(j := r), pos)) = Inl DivisionByZero"
    by auto
  then have "random_index rs a b p = Inl DivisionByZero" by (auto split: sum.splits)
  with random_index_no_division_by_zero[OF assms] show False by blast
qed

lemma fill_random_indices_loop_no_division_by_zero:
  assumes "b \<noteq> a"
  shows "fill_random_indices_loop rs idx n a b safecount pos \<noteq> Inl DivisionByZero"
  using assms
proof (induction rs idx n a b safecount pos rule: fill_random_indices_loop.induct)
  case (1 rs idx n a b safecount pos)
  show ?case
  proof (cases "fill_batch rs idx n a b pos")
    case (Inl e)
    with fill_batch_no_division_by_zero[OF "1.prems", of rs idx n pos] show ?thesis
      by (subst fill_random_indices_loop.simps) auto
  next
    case (Inr p)
    obtain idx1 pos1 where p: "p = (idx1, pos1)" by (cases p)
    obtain idx2 d where ad: "are_different idx1 n = (idx2, d)" by (cases "are_different idx1 n")
    show ?thesis
    proof (cases "safecount + 1 < 10 \<and> \<not> d")
      case True
      with "1.IH"[OF Inr[unfolded p] refl refl _ ad[symmetric]] "1.prems" Inr p ad show ?thesis
        by (subst fill_random_indices_loop.simps) (simp add: Let_def)
    next
      case False
      with Inr p ad show ?thesis
        by (subst fill_random_indices_loop.simps) (auto simp: Let_def)
    qed
  qed
qed

lemma fill_random_indices_no_division_by_zero:
  "b \<noteq> a \<Longrightarrow> fill_random_indices rs idx n a b pos \<noteq> Inl DivisionByZero"
  using fill_random_indices_loop_no_division_by_zero[of b a rs idx n 0 pos]
  by (auto simp: fill_random_indices_def fail_def split: sum.splits)

lemma ransac_trial_error:
  assumes "ransac_trial out_mask data model max_error datadim n mev = Inl e"
  shows "e = AssertionFailed"
proof -
  from for_loop_error[OF assms[unfolded ransac_trial_def]] show ?thesis
    by (auto simp: Let_def split: if_splits)
qed

lemma ransac_candidate_no_division_by_zero:
  assumes "n \<noteq> 0"
  shows "ransac_candidate rs u tmp data datadim n mev mgen nfit max_error macc pos
           \<noteq> Inl DivisionByZero"
  using fill_random_indices_no_division_by_zero[of n 0 rs "u_indices u" nfit pos] assms
  by (auto simp: ransac_candidate_def Let_def split: sum.splits if_splits dest: ransac_trial_error)

lemma ransac_iteration_no_division_by_zero:
  assumes "n \<noteq> 0"
  shows "ransac_iteration rs u data datadim n modeldim mev mgen nfit max_error macc s
           \<noteq> Inl DivisionByZero"
  using ransac_candidate_no_division_by_zero[OF assms, of rs u "tmp_mask s" data datadim mev mgen nfit
      max_error macc "rand_calls s"]
  by (auto simp: ransac_iteration_def split: sum.splits option.splits if_splits)

lemma ransac_trials_no_division_by_zero:
  assumes "n \<noteq> 0"
  shows "ransac_trials rs u data datadim n modeldim mev mgen nfit ntrials max_error macc pos
           \<noteq> Inl DivisionByZero"
proof
  assume "ransac_trials rs u data datadim n modeldim mev mgen nfit ntrials max_error macc pos
            = Inl DivisionByZero"
  from for_loop_error[OF this[unfolded ransac_trials_def]]
  show False using ransac_iteration_no_division_by_zero[OF assms] by blast
qed

lemma fill_batch_zero:
  assumes "1 \<le> n"
  shows "fill_batch rs idx n a a pos = Inl DivisionByZero"
  using assms by (simp add: fill_batch_def for_loop_step random_index_zero)

lemma fill_random_indices_zero:
  assumes "1 \<le> n"
  shows "fill_random_indices rs idx n a a pos = Inl DivisionByZero"
  using fill_batch_zero[OF assms]
  by (simp add: fill_random_indices_def fill_random_indices_loop.simps)

lemma ransac_trials_zero:
  assumes "1 \<le> nfit" "1 \<le> ntrials"
  shows "ransac_trials rs u data datadim 0 modeldim mev mgen nfit ntrials max_error macc pos
           = Inl DivisionByZero"
  using assms fill_random_indices_zero[OF assms(1), of rs "u_indices u" 0 pos]
  by (simp add: ransac_trials_def for_loop_step ransac_iteration_def ransac_candidate_def)

text \<open>
  C10. \<open>random_index\<close> returns only when \<open>a < b\<close>, and then with \<open>a\<close> plus the remainder
  of the random number by \<open>b - a\<close>; with \<open>b = a\<close> the remainder is by zero. In \<open>ransac\<close> the
  range is \<open>[0, n)\<close>: with \<open>n\<close> at least 1 no draw of the sampler or of the whole run divides
  by zero, and with \<open>n = 0\<close> and \<open>nfit\<close> at least 1 the first draw of the sampler does, so
  that a run with at least one trial ends there.
\<close>

theorem random_index_needs_nonempty_range:
  "(random_index rs a b pos = Inr (r, pos') \<longrightarrow> a < b \<and> r = a + int (rs pos) mod (b - a)) \<and>
   (a < b \<longrightarrow> random_index rs a b pos = Inr (a + int (rs pos) mod (b - a), Suc pos)) \<and>
   random_index rs a a pos = Inl DivisionByZero \<and>
   (1 \<le> n \<longrightarrow>
      fill_random_indices rs idx nfit 0 n pos \<noteq> Inl DivisionByZero \<and>
      ransac rs u mem out_mask out_model data datadim n modeldim mev mgen nfit ntrials
        min_inliers max_error macc pos \<noteq> Inl DivisionByZero) \<and>
   (1 \<le> nfit \<longrightarrow> fill_random_indices rs idx nfit 0 0 pos = Inl DivisionByZero) \<and>
   (1 \<le> nfit \<and> 1 \<le> ntrials \<longrightarrow>
      ransac rs u mem out_mask out_model data datadim 0 modeldim mev mgen nfit ntrials
        min_inliers max_error macc pos = Inl DivisionByZero)"
proof (intro conjI impI)
  assume "random_index rs a b pos = Inr (r, pos')"
  then show "a < b" "r = a + int (rs pos) mod (b - a)"
    using random_index_Inr_positive by blast+
next
  assume "a < b"
  then show "random_index rs a b pos = Inr (a + int (rs pos) mod (b - a), Suc pos)"
    by (rule random_index_positive)
next
  show "random_index rs a a pos = Inl DivisionByZero" by (rule random_index_zero)
next
  assume n: "1 \<le> n"
  then show "fill_random_indices rs idx nfit 0 n pos \<noteq> Inl DivisionByZero"
    by (intro fill_random_indices_no_division_by_zero) simp
  from n have "n \<noteq> 0" by simp
  from ransac_trials_no_division_by_zero[OF this]
  show "ransac rs u mem out_mask out_model data datadim n modeldim mev mgen nfit ntrials
        min_inliers max_error macc pos \<noteq> Inl DivisionByZero"
    by (auto simp: ransac_def Let_def split: sum.splits)
next
  assume "1 \<le> nfit"
  then show "fill_random_indices rs idx nfit 0 0 pos = Inl DivisionByZero"
    by (rule fill_random_indices_zero)
next
  assume "1 \<le> nfit \<and> 1 \<le> ntrials"
  then show "ransac rs u mem out_mask out_model data datadim 0 modeldim mev mgen nfit ntrials
        min_inliers max_error macc pos = Inl DivisionByZero"
    by (simp add: ransac_def ransac_trials_zero)
qed

section \<open>A run of the engine\<close>

lemma ransac_example:
  "ransac (\<lambda>i. i + 2)
     \<lparr>u_best_model = \<lambda>_. NaN, u_best_mask = \<lambda>_. False, u_tmp_mask = \<lambda>_. False,
      u_indices = \<lambda>_. 7, u_x = \<lambda>_. NaN\<rparr>
     \<lparr>floats = (\<lambda>_. NaN)(10 := Finite 0, 11 := Finite 1, 12 := Finite 5), bools = \<lambda>_. False\<rparr>
     (Some 0) (Some 20) 10 1 3 1
     (\<lambda>m d. case (m 0, d 0) of (Finite a, Finite b) \<Rightarrow> Finite \<bar>b - a\<bar> | _ \<Rightarrow> NaN)
     (\<lambda>x. x) 1 3 2 (Finite 2) None 0
   = Inr (2,
       \<lparr>floats = (\<lambda>_. NaN)(10 := Finite 0, 11 := Finite 1, 12 := Finite 5, 20 := Finite 0),
        bools = (\<lambda>_. False)(0 := True, 1 := True, 2 := False)\<rparr>, 3)"
  by (simp add: ransac_eval sampler_eval)

theorem random_index_needs_nonempty_range_witness:
  "random_index (\<lambda>_. 7) 0 3 0 = Inr (1, 1) \<and> (0::int) < 3 \<and>
   (1::int) = 0 + int ((\<lambda>_. 7 :: nat) (0::nat)) mod (3 - 0) \<and>
   random_index (\<lambda>_. 7) 2 2 0 = Inl DivisionByZero \<and>
   (1::int) \<le> 3 \<and>
   fill_random_indices (\<lambda>i. i + 2) (\<lambda>_. 7) 1 0 3 0 \<noteq> Inl DivisionByZero \<and>
   ransac (\<lambda>i. i + 2)
     \<lparr>u_best_model = \<lambda>_. NaN, u_best_mask = \<lambda>_. False, u_tmp_mask = \<lambda>_. False,
      u_indices = \<lambda>_. 7, u_x = \<lambda>_. NaN\<rparr>
     \<lparr>floats = (\<lambda>_. NaN)(10 := Finite 0, 11 := Finite 1, 12 := Finite 5), bools = \<lambda>_. False\<rparr>
     (Some 0) (Some 20) 10 1 3 1
     (\<lambda>m d. case (m 0, d 0) of (Finite a, Finite b) \<Rightarrow> Finite \<bar>b - a\<bar> | _ \<Rightarrow> NaN)
     (\<lambda>x. x) 1 3 2 (Finite 2) None 0 \<noteq> Inl DivisionByZero \<and>
   (1::int) \<le> 1 \<and>
   fill_random_indices (\<lambda>i. i + 2) (\<lambda>_. 7) 1 0 0 0 = Inl DivisionByZero \<and>
   ransac (\<lambda>i. i + 2)
     \<lparr>u_best_model = \<lambda>_. NaN, u_best_mask = \<lambda>_. False, u_tmp_mask = \<lambda>_. False,
      u_indices = \<lambda>_. 7, u_x = \<lambda>_. NaN\<rparr>
     \<lparr>floats = (\<lambda>_. NaN)(10 := Finite 0, 11 := Finite 1, 12 := Finite 5), bools = \<lambda>_. False\<rparr>
     (Some 0) (Some 20) 10 1 0 1
     (\<lambda>m d. case (m 0, d 0) of (Finite a, Finite b) \<Rightarrow> Finite \<bar>b - a\<bar> | _ \<Rightarrow> NaN)
     (\<lambda>x. x) 1 3 2 (Finite 2) None 0 = Inl DivisionByZero"
proof -
  let ?u = "\<lparr>u_best_model = \<lambda>_. NaN, u_best_mask = \<lambda>_. False, u_tmp_mask = \<lambda>_. False,
      u_indices = \<lambda>_. 7, u_x = \<lambda>_. NaN\<rparr>"
  let ?mem = "\<lparr>floats = (\<lambda>_. NaN)(10 := Finite 0, 11 := Finite 1, 12 := Finite 5),
      bools = \<lambda>_. False\<rparr>"
  let ?mev = "\<lambda>(m :: cfloat array) (d :: cfloat array).
      case (m 0, d 0) of (Finite a, Finite b) \<Rightarrow> Finite \<bar>b - a\<bar> | _ \<Rightarrow> NaN"
  note a = random_index_needs_nonempty_range[where rs = "\<lambda>_. 7" and a = 0 and b = 3 and pos = 0
      and r = 1 and pos' = 1]
  note b = random_index_needs_nonempty_range[where rs = "\<lambda>i. i + 2" and a = 2 and pos = 0
      and idx = "\<lambda>_. 7" and nfit = 1 and u = ?u and mem = ?mem and out_mask = "Some 0"
      and out_model = "Some 20" and data = 10 and datadim = 1 and modeldim = 1 and mev = ?mev
      and mgen = "\<lambda>x. x" and ntrials = 3 and min_inliers = 2 and max_error = "Finite 2"
      and macc = None]
  have r: "random_index (\<lambda>_. 7) 0 3 0 = Inr (1, 1)" by (simp add: random_index_def c_rem_def)
  from a r have "(1::int) = 0 + int ((\<lambda>_. 7 :: nat) (0::nat)) mod (3 - 0)" by blast
  moreover from b have "random_index (\<lambda>_. 7) 2 2 0 = Inl DivisionByZero"
    by (simp add: random_index_def)
  moreover from b[where n = 3]
  have "fill_random_indices (\<lambda>i. i + 2) (\<lambda>_. 7) 1 0 3 0 \<noteq> Inl DivisionByZero"
    and "ransac (\<lambda>i. i + 2) ?u ?mem (Some 0) (Some 20) 10 1 3 1 ?mev (\<lambda>x. x) 1 3 2 (Finite 2) None 0
      \<noteq> Inl DivisionByZero"
    by simp_all
  moreover from b[where n = 0]
  have "fill_random_indices (\<lambda>i. i + 2) (\<lambda>_. 7) 1 0 0 0 = Inl DivisionByZero"
    and "ransac (\<lambda>i. i + 2) ?u ?mem (Some 0) (Some 20) 10 1 0 1 ?mev (\<lambda>x. x) 1 3 2 (Finite 2) None 0
      = Inl DivisionByZero"
    by simp_all
  ultimately show ?thesis using r by simp
qed

section \<open>The outcome of ransac\<close>

lemma ransac_trials_example:
  "ransac_trials ex_rs ex_u (ptr_add (floats ex_mem) 10) 1 3 1 ex_mev (\<lambda>x. x) 1 3 (Finite 2) None 0
     = Inr ex_best"
  by (simp add: ransac_eval sampler_eval)

lemma ransac_example_success:
  "ransac ex_rs ex_u ex_mem (Some 0) (Some 20) 10 1 3 1 ex_mev (\<lambda>x. x) 1 3 2 (Finite 2) None 0
     = Inr (2, ex_mem', 3)"
  by (simp add: ransac_eval sampler_eval)


lemma ransac_example_rejected:
  "ransac ex_rs ex_u ex_mem (Some 0) (Some 20) 10 1 3 1 ex_mev (\<lambda>x. x) 1 3 1 (Finite 2)
     (Some (\<lambda>m. False)) 0 = Inr (0, ex_mem, 3)"
  by (simp add: ransac_eval sampler_eval)

text \<open>
  C1. Once the trials are over and have left a best-so-far record: if its count is at least
  \<open>min_inliers\<close>, \<open>ransac\<close> returns that count, and the \<open>modeldim\<close> entries of the best model
  and the \<open>n\<close> entries of the best mask are in the caller's buffers (each where the pointer
  is not \<^verbatim>\<open>NULL\<close>); if the count is below \<open>min_inliers\<close>, \<open>ransac\<close> returns 0, whatever the
  record holds.
\<close>

theorem ransac_threshold_gate:
  "ransac_trials rs u (ptr_add (floats mem) data) datadim n modeldim mev mgen nfit ntrials
     max_error macc pos = Inr s \<Longrightarrow>
   (min_inliers \<le> best_ninliers s \<longrightarrow>
      (\<exists>mem'. ransac rs u mem out_mask out_model data datadim n modeldim mev mgen nfit ntrials
                 min_inliers max_error macc pos = Inr (best_ninliers s, mem', rand_calls s) \<and>
         (\<forall>p j. out_model = Some p \<and> 0 \<le> j \<and> j < modeldim \<longrightarrow>
            floats mem' (p + j) = best_model s j) \<and>
         (\<forall>q j. out_mask = Some q \<and> 0 \<le> j \<and> j < n \<longrightarrow> bools mem' (q + j) = best_mask s j))) \<and>
   (best_ninliers s < min_inliers \<longrightarrow>
      ransac rs u mem out_mask out_model data datadim n modeldim mev mgen nfit ntrials
        min_inliers max_error macc pos = Inr (0, mem, rand_calls s))"
  by (cases out_model; cases out_mask) (auto simp: ransac_def Let_def copy_out)

theorem ransac_threshold_gate_witness:
  "ransac_trials ex_rs ex_u (ptr_add (floats ex_mem) 10) 1 3 1 ex_mev (\<lambda>x. x) 1 3 (Finite 2) None 0
     = Inr ex_best \<and>
   2 \<le> best_ninliers ex_best \<and>
   ransac ex_rs ex_u ex_mem (Some 0) (Some 20) 10 1 3 1 ex_mev (\<lambda>x. x) 1 3 2 (Finite 2) None 0
     = Inr (best_ninliers ex_best, ex_mem', rand_calls ex_best) \<and>
   floats ex_mem' (20 + 0) = best_model ex_best 0 \<and>
   bools ex_mem' (0 + 1) = best_mask ex_best 1 \<and>
   best_ninliers ex_best < 3 \<and>
   ransac ex_rs ex_u ex_mem (Some 0) (Some 20) 10 1 3 1 ex_mev (\<lambda>x. x) 1 3 3 (Finite 2) None 0
     = Inr (0, ex_mem, rand_calls ex_best)"
proof -
  note g = ransac_threshold_gate[OF ransac_trials_example, where out_mask = "Some 0"
      and out_model = "Some 20"]
  from g[where min_inliers = 2] obtain mem' where
    r: "ransac ex_rs ex_u ex_mem (Some 0) (Some 20) 10 1 3 1 ex_mev (\<lambda>x. x) 1 3 2 (Finite 2) None 0
          = Inr (best_ninliers ex_best, mem', rand_calls ex_best)"
    and m: "\<forall>p j. Some 20 = Some p \<and> 0 \<le> j \<and> j < 1 \<longrightarrow> floats mem' (p + j) = best_model ex_best j"
    and k: "\<forall>q j. Some 0 = Some q \<and> 0 \<le> j \<and> j < 3 \<longrightarrow> bools mem' (q + j) = best_mask ex_best j"
    by auto
  from r ransac_example_success have mem': "mem' = ex_mem'" by simp
  from m[rule_format, of 20 0] have "floats mem' (20 + 0) = best_model ex_best 0" by simp
  moreover from k[rule_format, of 0 1] have "bools mem' (0 + 1) = best_mask ex_best 1" by simp
  moreover from g[where min_inliers = 3]
  have "ransac ex_rs ex_u ex_mem (Some 0) (Some 20) 10 1 3 1 ex_mev (\<lambda>x. x) 1 3 3 (Finite 2) None 0
     = Inr (0, ex_mem, rand_calls ex_best)"
    by simp
  ultimately show ?thesis using r ransac_trials_example unfolding mem' by simp
qed

lemma ransac_Inr:
  assumes "ransac rs u mem out_mask out_model data datadim n modeldim mev mgen nfit ntrials
             min_inliers max_error macc pos = Inr (ret, mem', pos')"
  obtains s where
    "ransac_trials rs u (ptr_add (floats mem) data) datadim n modeldim mev mgen nfit ntrials
       max_error macc pos = Inr s"
  using assms by (auto simp: ransac_def split: sum.splits)




section \<open>The acceptance predicate\<close>

lemma ransac_candidate_rejected:
  assumes "fill_random_indices rs (u_indices u) nfit 0 n pos = Inr (indices, pos')"
    and "\<not> acc (mgen (ransac_sample_points (u_x u) data datadim indices nfit))"
  shows "ransac_candidate rs u tmp data datadim n mev mgen nfit max_error (Some acc) pos
           = Inr (None, tmp, pos')"
  using assms by (simp add: ransac_candidate_def Let_def)

lemma ransac_candidate_scored:
  assumes "fill_random_indices rs (u_indices u) nfit 0 n pos = Inr (indices, pos')"
    and "macc = None \<or> (\<exists>acc. macc = Some acc \<and>
           acc (mgen (ransac_sample_points (u_x u) data datadim indices nfit)))"
  shows "ransac_candidate rs u tmp data datadim n mev mgen nfit max_error macc pos =
           (case ransac_trial tmp data (mgen (ransac_sample_points (u_x u) data datadim indices nfit))
                   max_error datadim n mev of
              Inl e \<Rightarrow> Inl e
            | Inr (n_inliers, tmp') \<Rightarrow>
                Inr (Some (mgen (ransac_sample_points (u_x u) data datadim indices nfit), n_inliers),
                     tmp', pos'))"
  using assms by (auto simp: ransac_candidate_def Let_def)

lemma ransac_iteration_all_rejected:
  assumes "\<forall>m. \<not> acc m"
    and "ransac_iteration rs u data datadim n modeldim mev mgen nfit max_error (Some acc) s = Inr s'"
  shows "\<exists>pos'. s' = s\<lparr>rand_calls := pos'\<rparr>"
  using assms
  by (auto simp: ransac_iteration_def ransac_candidate_def Let_def split: sum.splits)

lemma ransac_trials_all_rejected:
  assumes "\<forall>m. \<not> acc m"
    and "ransac_trials rs u data datadim n modeldim mev mgen nfit ntrials max_error (Some acc) pos
           = Inr s"
  shows "best_ninliers s = 0 \<and> best_model s = u_best_model u \<and> best_mask s = u_best_mask u \<and>
         tmp_mask s = u_tmp_mask u"
proof (cases "0 \<le> ntrials")
  case False
  with assms(2) show ?thesis by (auto simp: ransac_trials_def for_loop_stop)
next
  case True
  show ?thesis
  proof (rule for_loop_invariant[OF assms(2)[unfolded ransac_trials_def] True,
        where P = "\<lambda>_ s. best_ninliers s = 0 \<and> best_model s = u_best_model u \<and>
                     best_mask s = u_best_mask u \<and> tmp_mask s = u_tmp_mask u"])
    fix j t t'
    assume "best_ninliers t = 0 \<and> best_model t = u_best_model u \<and> best_mask t = u_best_mask u \<and>
            tmp_mask t = u_tmp_mask u"
      and "ransac_iteration rs u data datadim n modeldim mev mgen nfit max_error (Some acc) t = Inr t'"
    with ransac_iteration_all_rejected[OF assms(1)]
    show "best_ninliers t' = 0 \<and> best_model t' = u_best_model u \<and> best_mask t' = u_best_mask u \<and>
            tmp_mask t' = u_tmp_mask u"
      by fastforce
  qed simp
qed

text \<open>
  C6. A trial whose model the acceptance predicate rejects ends at once: the candidate is
  \<open>None\<close> and \<^verbatim>\<open>tmp_mask\<close> is untouched whatever the evaluation function is (it is not
  called), and the pass leaves the best-so-far record as it was. When the predicate rejects
  every model and \<open>ransac\<close> returns, it returns 0 and the record is still the initial one.
  With no predicate (\<^verbatim>\<open>NULL\<close>) the candidate is what \<open>ransac_trial\<close> gives on the generated
  model.
\<close>

theorem acceptance_predicate:
  "(fill_random_indices rs (u_indices u) nfit 0 n (rand_calls s) = Inr (indices, pos') \<and>
    \<not> acc (mgen (ransac_sample_points (u_x u) data datadim indices nfit)) \<longrightarrow>
      ransac_candidate rs u (tmp_mask s) data datadim n mev mgen nfit max_error (Some acc)
        (rand_calls s) = Inr (None, tmp_mask s, pos') \<and>
      ransac_iteration rs u data datadim n modeldim mev mgen nfit max_error (Some acc) s
        = Inr (s\<lparr>rand_calls := pos'\<rparr>)) \<and>
   ((\<forall>m. \<not> acc m) \<and>
    ransac rs u mem out_mask out_model data' datadim n modeldim mev mgen nfit ntrials min_inliers
      max_error (Some acc) pos = Inr (ret, mem', pos'') \<longrightarrow>
      ret = 0 \<and>
      (\<exists>s'. ransac_trials rs u (ptr_add (floats mem) data') datadim n modeldim mev mgen nfit
              ntrials max_error (Some acc) pos = Inr s' \<and>
            best_ninliers s' = 0 \<and> best_model s' = u_best_model u \<and>
            best_mask s' = u_best_mask u)) \<and>
   (fill_random_indices rs (u_indices u) nfit 0 n (rand_calls s) = Inr (indices, pos') \<longrightarrow>
      ransac_candidate rs u (tmp_mask s) data datadim n mev mgen nfit max_error None (rand_calls s) =
        (case ransac_trial (tmp_mask s) data
                (mgen (ransac_sample_points (u_x u) data datadim indices nfit))
                max_error datadim n mev of
           Inl e \<Rightarrow> Inl e
         | Inr (n_inliers, tmp') \<Rightarrow>
             Inr (Some (mgen (ransac_sample_points (u_x u) data datadim indices nfit), n_inliers),
                  tmp', pos')))"
proof (intro conjI impI)
  assume h: "fill_random_indices rs (u_indices u) nfit 0 n (rand_calls s) = Inr (indices, pos') \<and>
    \<not> acc (mgen (ransac_sample_points (u_x u) data datadim indices nfit))"
  then show c: "ransac_candidate rs u (tmp_mask s) data datadim n mev mgen nfit max_error (Some acc)
        (rand_calls s) = Inr (None, tmp_mask s, pos')"
    by (intro ransac_candidate_rejected) auto
  show "ransac_iteration rs u data datadim n modeldim mev mgen nfit max_error (Some acc) s
        = Inr (s\<lparr>rand_calls := pos'\<rparr>)"
    by (simp add: ransac_iteration_def c)
next
  assume h: "(\<forall>m. \<not> acc m) \<and>
    ransac rs u mem out_mask out_model data' datadim n modeldim mev mgen nfit ntrials min_inliers
      max_error (Some acc) pos = Inr (ret, mem', pos'')"
  then obtain s' where s': "ransac_trials rs u (ptr_add (floats mem) data') datadim n modeldim mev
      mgen nfit ntrials max_error (Some acc) pos = Inr s'"
    by (auto elim: ransac_Inr)
  from ransac_trials_all_rejected[OF _ s'] h
  have b: "best_ninliers s' = 0 \<and> best_model s' = u_best_model u \<and> best_mask s' = u_best_mask u"
    by simp
  with h s' show "ret = 0" by (auto simp: ransac_def Let_def split: if_splits)
  from b s' show "\<exists>s'. ransac_trials rs u (ptr_add (floats mem) data') datadim n modeldim mev mgen nfit
              ntrials max_error (Some acc) pos = Inr s' \<and>
            best_ninliers s' = 0 \<and> best_model s' = u_best_model u \<and>
            best_mask s' = u_best_mask u"
    by blast
next
  assume "fill_random_indices rs (u_indices u) nfit 0 n (rand_calls s) = Inr (indices, pos')"
  then show "ransac_candidate rs u (tmp_mask s) data datadim n mev mgen nfit max_error None (rand_calls s) =
        (case ransac_trial (tmp_mask s) data
                (mgen (ransac_sample_points (u_x u) data datadim indices nfit))
                max_error datadim n mev of
           Inl e \<Rightarrow> Inl e
         | Inr (n_inliers, tmp') \<Rightarrow>
             Inr (Some (mgen (ransac_sample_points (u_x u) data datadim indices nfit), n_inliers),
                  tmp', pos'))"
    by (intro ransac_candidate_scored) auto
qed

lemma fill_random_indices_example3:
  "fill_random_indices ex_rs (u_indices ex_u) 1 0 3 0 = Inr ((\<lambda>_. 7)(0 := 2), 1)"
  by (simp add: sampler_eval)

lemma ransac_sample_points_example:
  "ransac_sample_points (u_x ex_u) (ptr_add (floats ex_mem) 10) 1 ((\<lambda>_. 7)(0 := 2)) 1
     = (\<lambda>_. NaN)(0 := Finite 5)"
  by (simp add: ransac_eval)

lemma ransac_trial_example2:
  "ransac_trial (\<lambda>_. False) (ptr_add (floats ex_mem) 10) ((\<lambda>_. NaN)(0 := Finite 5)) (Finite 2) 1 3
     ex_mev = Inr (1, (\<lambda>_. False)(0 := False, 1 := False, 2 := True))"
  by (simp add: ransac_eval for_loop.simps)

theorem acceptance_predicate_witness:
  "fill_random_indices ex_rs (u_indices ex_u) 1 0 3 0 = Inr ((\<lambda>_. 7)(0 := 2), 1) \<and>
   \<not> (\<lambda>m. float_lt (m 0) (Finite 2))
       ((\<lambda>x. x) (ransac_sample_points (u_x ex_u) (ptr_add (floats ex_mem) 10) 1 ((\<lambda>_. 7)(0 := 2)) 1)) \<and>
   ransac_candidate ex_rs ex_u (\<lambda>_. False) (ptr_add (floats ex_mem) 10) 1 3 (\<lambda>m d. NaN) (\<lambda>x. x) 1
       (Finite 2) (Some (\<lambda>m. float_lt (m 0) (Finite 2))) 0
     = Inr (None, \<lambda>_. False, 1) \<and>
   ransac_iteration ex_rs ex_u (ptr_add (floats ex_mem) 10) 1 3 1 (\<lambda>m d. NaN) (\<lambda>x. x) 1 (Finite 2)
       (Some (\<lambda>m. float_lt (m 0) (Finite 2)))
       \<lparr>best_ninliers = 0, best_model = \<lambda>_. NaN, best_mask = \<lambda>_. False, tmp_mask = \<lambda>_. False,
        rand_calls = 0\<rparr>
     = Inr \<lparr>best_ninliers = 0, best_model = \<lambda>_. NaN, best_mask = \<lambda>_. False,
            tmp_mask = \<lambda>_. False, rand_calls = 1\<rparr> \<and>
   ransac ex_rs ex_u ex_mem (Some 0) (Some 20) 10 1 3 1 ex_mev (\<lambda>x. x) 1 3 1 (Finite 2)
     (Some (\<lambda>m. False)) 0 = Inr (0, ex_mem, 3) \<and>
   ransac_candidate ex_rs ex_u (\<lambda>_. False) (ptr_add (floats ex_mem) 10) 1 3 ex_mev (\<lambda>x. x) 1
       (Finite 2) None 0
     = Inr (Some ((\<lambda>_. NaN)(0 := Finite 5), 1), (\<lambda>_. False)(0 := False, 1 := False, 2 := True), 1)"
proof -
  let ?s = "\<lparr>best_ninliers = 0, best_model = \<lambda>_. NaN, best_mask = \<lambda>_. False,
             tmp_mask = \<lambda>_. False, rand_calls = 0\<rparr> :: ransac_locals"
  let ?acc = "\<lambda>m :: cfloat array. float_lt (m 0) (Finite 2)"
  have rej: "\<not> ?acc ((\<lambda>x. x) (ransac_sample_points (u_x ex_u) (ptr_add (floats ex_mem) 10) 1
                 ((\<lambda>_. 7)(0 := 2)) 1))"
    using ransac_sample_points_example by simp
  have f: "fill_random_indices ex_rs (u_indices ex_u) 1 0 3 (rand_calls ?s) = Inr ((\<lambda>_. 7)(0 := 2), 1)"
    using fill_random_indices_example3 by simp
  note a = acceptance_predicate[where s = ?s and rs = ex_rs and u = ex_u and nfit = 1 and n = 3
      and indices = "(\<lambda>_. 7)(0 := 2)" and pos' = 1 and mgen = "\<lambda>x. x"
      and data = "ptr_add (floats ex_mem) 10" and datadim = 1 and max_error = "Finite 2"
      and modeldim = 1]
  from a[where acc = ?acc and mev = "\<lambda>m d. NaN"] f rej
  have c1: "ransac_candidate ex_rs ex_u (\<lambda>_. False) (ptr_add (floats ex_mem) 10) 1 3 (\<lambda>m d. NaN)
       (\<lambda>x. x) 1 (Finite 2) (Some ?acc) 0 = Inr (None, \<lambda>_. False, 1)"
    and c2: "ransac_iteration ex_rs ex_u (ptr_add (floats ex_mem) 10) 1 3 1 (\<lambda>m d. NaN) (\<lambda>x. x) 1
       (Finite 2) (Some ?acc) ?s = Inr (?s\<lparr>rand_calls := 1\<rparr>)"
    by simp_all
  from a[where mev = ex_mev] f
  have c3: "ransac_candidate ex_rs ex_u (\<lambda>_. False) (ptr_add (floats ex_mem) 10) 1 3 ex_mev (\<lambda>x. x) 1
       (Finite 2) None 0
     = Inr (Some ((\<lambda>_. NaN)(0 := Finite 5), 1), (\<lambda>_. False)(0 := False, 1 := False, 2 := True), 1)"
    using ransac_sample_points_example ransac_trial_example2 by simp
  from c1 c2 c3 rej fill_random_indices_example3 ransac_example_rejected
  show ?thesis by simp
qed

section \<open>The best-so-far record\<close>

lemma ransac_iteration_step:
  assumes "ransac_iteration rs u data datadim n modeldim mev mgen nfit max_error macc s = Inr s'"
  shows "\<exists>c. ransac_candidate rs u (tmp_mask s) data datadim n mev mgen nfit max_error macc
               (rand_calls s) = Inr (c, tmp_mask s', rand_calls s') \<and>
             record_step modeldim n s c (tmp_mask s') s'"
proof -
  from assms obtain c tmp pos' where
    c: "ransac_candidate rs u (tmp_mask s) data datadim n mev mgen nfit max_error macc
          (rand_calls s) = Inr (c, tmp, pos')"
    by (cases "ransac_candidate rs u (tmp_mask s) data datadim n mev mgen nfit max_error macc
          (rand_calls s)") (auto simp: ransac_iteration_def)
  show ?thesis
  proof (cases c)
    case None
    with assms c have "s' = s\<lparr>tmp_mask := tmp, rand_calls := pos'\<rparr>"
      by (simp add: ransac_iteration_def)
    with c None show ?thesis by (simp add: record_step_def)
  next
    case (Some mc)
    obtain model cnt where mc: "mc = (model, cnt)" by (cases mc)
    show ?thesis
    proof (cases "best_ninliers s < cnt")
      case True
      with assms c Some mc
      have "s' = s\<lparr>best_ninliers := cnt,
                   best_model :=
                     for_pure 0 modeldim (\<lambda>j best_model. best_model(j := model j)) (best_model s),
                   best_mask := for_pure 0 n (\<lambda>j best_mask. best_mask(j := tmp j)) (best_mask s),
                   tmp_mask := tmp, rand_calls := pos'\<rparr>"
        by (simp add: ransac_iteration_def)
      with c Some mc True show ?thesis by (simp add: record_step_def copy_local)
    next
      case False
      with assms c Some mc have "s' = s\<lparr>tmp_mask := tmp, rand_calls := pos'\<rparr>"
        by (simp add: ransac_iteration_def)
      with c Some mc False show ?thesis by (simp add: record_step_def)
    qed
  qed
qed

lemma Max_insert_list: "Max (insert b (set (c # l))) = max c (Max (insert b (set l)))"
proof -
  have "Max (insert c (insert b (set l))) = max c (Max (insert b (set l)))"
    by (rule Max_insert) simp_all
  then show ?thesis by (simp add: insert_commute)
qed

lemma Max_insert_ge: "b \<le> Max (insert b (set l))"
  by simp

lemma Max_insert_raise:
  fixes b :: int
  assumes "b \<le> c"
  shows "Max (insert b (set (c # l))) = Max (insert c (set l))"
proof -
  have "Max (insert b (insert c (set l))) = max b (Max (insert c (set l)))"
    by (rule Max_insert) simp_all
  moreover have "c \<le> Max (insert c (set l))" by simp
  with assms have "b \<le> Max (insert c (set l))" by linarith
  ultimately show ?thesis by (simp add: max_absorb2 insert_commute)
qed

lemma first_best_refl: "first_best modeldim n s [] s"
  by (simp add: first_best_def)

lemma first_best_ge:
  assumes "first_best modeldim n s tlog s'"
  shows "best_ninliers s \<le> best_ninliers s'"
  using assms by (simp add: first_best_def)

lemma first_best_later:
  assumes f: "first_best modeldim n s1 tlog s'"
    and lt: "best_ninliers s1 < best_ninliers s'"
    and c: "\<forall>m c' mk. (c, tmp) = (Some (m, c'), mk) \<longrightarrow> c' < best_ninliers s'"
  shows "\<exists>i model msk.
            i < length ((c, tmp) # tlog) \<and>
            ((c, tmp) # tlog) ! i = (Some (model, best_ninliers s'), msk) \<and>
            (\<forall>j < i. \<forall>m c' mk. ((c, tmp) # tlog) ! j = (Some (m, c'), mk) \<longrightarrow>
               c' < best_ninliers s') \<and>
            (\<forall>j. 0 \<le> j \<and> j < modeldim \<longrightarrow> best_model s' j = model j) \<and>
            (\<forall>j. 0 \<le> j \<and> j < n \<longrightarrow> best_mask s' j = msk j)"
proof -
  from f lt obtain i model msk where
    i: "i < length tlog" "tlog ! i = (Some (model, best_ninliers s'), msk)"
    and before: "\<forall>j < i. \<forall>m c' mk. tlog ! j = (Some (m, c'), mk) \<longrightarrow> c' < best_ninliers s'"
    and md: "\<forall>j. 0 \<le> j \<and> j < modeldim \<longrightarrow> best_model s' j = model j"
    and mk: "\<forall>j. 0 \<le> j \<and> j < n \<longrightarrow> best_mask s' j = msk j"
    unfolding first_best_def by blast
  have "\<forall>j < Suc i. \<forall>m c' mk. ((c, tmp) # tlog) ! j = (Some (m, c'), mk) \<longrightarrow>
          c' < best_ninliers s'"
  proof (intro allI impI)
    fix j m c' mk
    assume j: "j < Suc i" and e: "((c, tmp) # tlog) ! j = (Some (m, c'), mk)"
    show "c' < best_ninliers s'"
    proof (cases j)
      case 0
      with e c show ?thesis by simp
    next
      case (Suc j')
      with j e before show ?thesis by auto
    qed
  qed
  moreover have "Suc i < length ((c, tmp) # tlog)" using i by simp
  moreover have "((c, tmp) # tlog) ! Suc i = (Some (model, best_ninliers s'), msk)" using i by simp
  ultimately show ?thesis using md mk by blast
qed

lemma first_best_Cons:
  assumes st: "record_step modeldim n s c tmp s1" and f: "first_best modeldim n s1 tlog s'"
  shows "first_best modeldim n s ((c, tmp) # tlog) s'"
proof -
  from f have F1: "best_ninliers s' = Max (insert (best_ninliers s1) (set (scored_counts tlog)))"
    and F2: "best_ninliers s' = best_ninliers s1 \<longrightarrow>
               best_model s' = best_model s1 \<and> best_mask s' = best_mask s1"
    by (simp_all add: first_best_def)
  have ge: "best_ninliers s1 \<le> best_ninliers s'" using f by (rule first_best_ge)
  consider (replaced) model cnt where "c = Some (model, cnt)" "best_ninliers s < cnt"
    | (kept) "c = None \<or> (\<exists>model cnt. c = Some (model, cnt) \<and> cnt \<le> best_ninliers s)"
  proof (cases c)
    case None
    then show ?thesis using that(2) by simp
  next
    case (Some mc)
    obtain model cnt where "mc = (model, cnt)" by (cases mc)
    with Some show ?thesis using that by (cases "best_ninliers s < cnt") auto
  qed
  then show ?thesis
  proof cases
    case replaced
    with st have s1: "best_ninliers s1 = cnt"
      and m1: "best_model s1 = (\<lambda>j. if 0 \<le> j \<and> j < modeldim then model j else best_model s j)"
      and k1: "best_mask s1 = (\<lambda>j. if 0 \<le> j \<and> j < n then tmp j else best_mask s j)"
      by (simp_all add: record_step_def)
    have G1: "best_ninliers s' = Max (insert (best_ninliers s) (set (scored_counts ((c, tmp) # tlog))))"
      using replaced F1 s1 Max_insert_raise[of "best_ninliers s" cnt "scored_counts tlog"] by simp
    have lt: "best_ninliers s < best_ninliers s'" using replaced s1 ge by simp
    have G3: "\<exists>i model msk.
            i < length ((c, tmp) # tlog) \<and>
            ((c, tmp) # tlog) ! i = (Some (model, best_ninliers s'), msk) \<and>
            (\<forall>j < i. \<forall>m c' mk. ((c, tmp) # tlog) ! j = (Some (m, c'), mk) \<longrightarrow>
               c' < best_ninliers s') \<and>
            (\<forall>j. 0 \<le> j \<and> j < modeldim \<longrightarrow> best_model s' j = model j) \<and>
            (\<forall>j. 0 \<le> j \<and> j < n \<longrightarrow> best_mask s' j = msk j)"
    proof (cases "best_ninliers s' = cnt")
      case True
      with F2 s1 m1 k1 have "\<forall>j. 0 \<le> j \<and> j < modeldim \<longrightarrow> best_model s' j = model j"
        and "\<forall>j. 0 \<le> j \<and> j < n \<longrightarrow> best_mask s' j = tmp j"
        by simp_all
      moreover have "0 < length ((c, tmp) # tlog)" by simp
      moreover have "((c, tmp) # tlog) ! 0 = (Some (model, best_ninliers s'), tmp)"
        using replaced True by simp
      moreover have "\<forall>j < (0::nat). \<forall>m c' mk. ((c, tmp) # tlog) ! j = (Some (m, c'), mk) \<longrightarrow>
               c' < best_ninliers s'"
        by simp
      ultimately show ?thesis by blast
    next
      case False
      with ge s1 have "best_ninliers s1 < best_ninliers s'" by simp
      moreover from this replaced s1
      have "\<forall>m c' mk. (c, tmp) = (Some (m, c'), mk) \<longrightarrow> c' < best_ninliers s'" by simp
      ultimately show ?thesis using first_best_later[OF f] by blast
    qed
    from G1 lt G3 show ?thesis unfolding first_best_def by simp
  next
    case kept
    with st have s1: "best_ninliers s1 = best_ninliers s" and m1: "best_model s1 = best_model s"
      and k1: "best_mask s1 = best_mask s"
      by (auto simp: record_step_def)
    have G1: "best_ninliers s' = Max (insert (best_ninliers s) (set (scored_counts ((c, tmp) # tlog))))"
    proof (cases c)
      case None
      with F1 s1 show ?thesis by simp
    next
      case (Some mc)
      with kept obtain model cnt where mc: "c = Some (model, cnt)" "cnt \<le> best_ninliers s" by auto
      with ge s1 have "cnt \<le> best_ninliers s'" by simp
      with mc F1 s1 Max_insert_list[of "best_ninliers s" cnt "scored_counts tlog"]
      show ?thesis by simp
    qed
    have G2: "best_ninliers s' = best_ninliers s \<longrightarrow>
               best_model s' = best_model s \<and> best_mask s' = best_mask s"
      using F2 s1 m1 k1 by simp
    have G3: "best_ninliers s < best_ninliers s' \<longrightarrow> (\<exists>i model msk.
            i < length ((c, tmp) # tlog) \<and>
            ((c, tmp) # tlog) ! i = (Some (model, best_ninliers s'), msk) \<and>
            (\<forall>j < i. \<forall>m c' mk. ((c, tmp) # tlog) ! j = (Some (m, c'), mk) \<longrightarrow>
               c' < best_ninliers s') \<and>
            (\<forall>j. 0 \<le> j \<and> j < modeldim \<longrightarrow> best_model s' j = model j) \<and>
            (\<forall>j. 0 \<le> j \<and> j < n \<longrightarrow> best_mask s' j = msk j))"
    proof
      assume lt: "best_ninliers s < best_ninliers s'"
      then have "best_ninliers s1 < best_ninliers s'" using s1 by simp
      moreover from lt kept
      have "\<forall>m c' mk. (c, tmp) = (Some (m, c'), mk) \<longrightarrow> c' < best_ninliers s'" by auto
      ultimately show "\<exists>i model msk.
            i < length ((c, tmp) # tlog) \<and>
            ((c, tmp) # tlog) ! i = (Some (model, best_ninliers s'), msk) \<and>
            (\<forall>j < i. \<forall>m c' mk. ((c, tmp) # tlog) ! j = (Some (m, c'), mk) \<longrightarrow>
               c' < best_ninliers s') \<and>
            (\<forall>j. 0 \<le> j \<and> j < modeldim \<longrightarrow> best_model s' j = model j) \<and>
            (\<forall>j. 0 \<le> j \<and> j < n \<longrightarrow> best_mask s' j = msk j)"
        using first_best_later[OF f] by blast
    qed
    from G1 G2 G3 show ?thesis unfolding first_best_def by blast
  qed
qed

lemma trials_log:
  assumes "for_loop i (i + int k)
             (\<lambda>_ s. ransac_iteration rs u data datadim n modeldim mev mgen nfit max_error macc s) s
           = Inr s'"
  shows "\<exists>tlog. trial_log rs u data datadim n mev mgen nfit max_error macc k (tmp_mask s) (rand_calls s)
                  = Inr (tlog, tmp_mask s', rand_calls s') \<and>
                length tlog = k \<and> first_best modeldim n s tlog s'"
  using assms
proof (induction k arbitrary: i s)
  case 0
  then have "s' = s" by (simp add: for_loop_stop)
  then show ?case by (simp add: first_best_refl)
next
  case (Suc k)
  let ?body = "\<lambda>(_::int) s. ransac_iteration rs u data datadim n modeldim mev mgen nfit max_error macc s"
  have lt: "i < i + int (Suc k)" by simp
  from Suc.prems obtain s1 where
    s1: "ransac_iteration rs u data datadim n modeldim mev mgen nfit max_error macc s = Inr s1"
    and rest: "for_loop (i + 1) (i + int (Suc k)) ?body s1 = Inr s'"
    by (subst (asm) for_loop_step[OF lt]) (auto split: sum.splits)
  have "i + int (Suc k) = (i + 1) + int k" by simp
  with rest have "for_loop (i + 1) ((i + 1) + int k) ?body s1 = Inr s'" by (simp only:)
  from Suc.IH[OF this] obtain tlog where
    tl: "trial_log rs u data datadim n mev mgen nfit max_error macc k (tmp_mask s1) (rand_calls s1)
           = Inr (tlog, tmp_mask s', rand_calls s')"
    and len: "length tlog = k" and fb: "first_best modeldim n s1 tlog s'"
    by blast
  from ransac_iteration_step[OF s1] obtain c where
    c: "ransac_candidate rs u (tmp_mask s) data datadim n mev mgen nfit max_error macc
          (rand_calls s) = Inr (c, tmp_mask s1, rand_calls s1)"
    and st: "record_step modeldim n s c (tmp_mask s1) s1"
    by blast
  have "trial_log rs u data datadim n mev mgen nfit max_error macc (Suc k) (tmp_mask s) (rand_calls s)
          = Inr ((c, tmp_mask s1) # tlog, tmp_mask s', rand_calls s')"
    by (simp add: c tl)
  moreover have "length ((c, tmp_mask s1) # tlog) = Suc k" using len by simp
  moreover have "first_best modeldim n s ((c, tmp_mask s1) # tlog) s'"
    using st fb by (rule first_best_Cons)
  ultimately show ?case by blast
qed

lemma record_step_mono:
  assumes "record_step modeldim n s c tmp s'"
  shows "best_ninliers s \<le> best_ninliers s'"
  using assms by (auto simp: record_step_def split: option.splits if_splits)

text \<open>
  C2. The best-so-far count starts at 0. It never decreases from one trial to the next: the
  locals after \<open>k + 1\<close> trials are those after \<open>k\<close> trials and one more pass, which leaves the
  record as it was unless its candidate is scored with a strictly greater count. After \<open>k\<close>
  trials the count is the maximum of 0 and the counts of the scored trials of the log; a
  count of 0 means the record was never written; otherwise the model and mask of the record
  are those of the first trial that reached the count, every earlier scored trial having
  strictly less: among trials of equal count the earliest is kept.
\<close>

theorem best_so_far_record:
  "(k \<le> 0 \<longrightarrow>
      ransac_trials rs u data datadim n modeldim mev mgen nfit k max_error macc pos =
        Inr \<lparr>best_ninliers = 0, best_model = u_best_model u, best_mask = u_best_mask u,
             tmp_mask = u_tmp_mask u, rand_calls = pos\<rparr>) \<and>
   (0 \<le> k \<and>
    ransac_trials rs u data datadim n modeldim mev mgen nfit (k + 1) max_error macc pos = Inr s' \<longrightarrow>
      (\<exists>s. ransac_trials rs u data datadim n modeldim mev mgen nfit k max_error macc pos = Inr s \<and>
           ransac_iteration rs u data datadim n modeldim mev mgen nfit max_error macc s = Inr s' \<and>
           best_ninliers s \<le> best_ninliers s')) \<and>
   (ransac_iteration rs u data datadim n modeldim mev mgen nfit max_error macc t = Inr t' \<longrightarrow>
      (\<exists>c. ransac_candidate rs u (tmp_mask t) data datadim n mev mgen nfit max_error macc
              (rand_calls t) = Inr (c, tmp_mask t', rand_calls t') \<and>
           record_step modeldim n t c (tmp_mask t') t')) \<and>
   (0 \<le> k \<and>
    ransac_trials rs u data datadim n modeldim mev mgen nfit k max_error macc pos = Inr s \<longrightarrow>
      (\<exists>tlog.
         trial_log rs u data datadim n mev mgen nfit max_error macc (nat k) (u_tmp_mask u) pos
           = Inr (tlog, tmp_mask s, rand_calls s) \<and>
         length tlog = nat k \<and>
         best_ninliers s = Max (insert 0 (set (scored_counts tlog))) \<and>
         (best_ninliers s = 0 \<longrightarrow>
            best_model s = u_best_model u \<and> best_mask s = u_best_mask u) \<and>
         (0 < best_ninliers s \<longrightarrow>
            (\<exists>i model msk.
               i < length tlog \<and> tlog ! i = (Some (model, best_ninliers s), msk) \<and>
               (\<forall>j < i. \<forall>m c mk. tlog ! j = (Some (m, c), mk) \<longrightarrow> c < best_ninliers s) \<and>
               (\<forall>j. 0 \<le> j \<and> j < modeldim \<longrightarrow> best_model s j = model j) \<and>
               (\<forall>j. 0 \<le> j \<and> j < n \<longrightarrow> best_mask s j = msk j)))))"
proof (intro conjI impI)
  assume "k \<le> 0"
  then show "ransac_trials rs u data datadim n modeldim mev mgen nfit k max_error macc pos =
        Inr \<lparr>best_ninliers = 0, best_model = u_best_model u, best_mask = u_best_mask u,
             tmp_mask = u_tmp_mask u, rand_calls = pos\<rparr>"
    by (simp add: ransac_trials_def for_loop_stop)
next
  assume h: "0 \<le> k \<and>
    ransac_trials rs u data datadim n modeldim mev mgen nfit (k + 1) max_error macc pos = Inr s'"
  then have k: "0 \<le> k" by simp
  from h obtain s where
    s: "ransac_trials rs u data datadim n modeldim mev mgen nfit k max_error macc pos = Inr s"
    and it: "ransac_iteration rs u data datadim n modeldim mev mgen nfit max_error macc s = Inr s'"
    unfolding ransac_trials_def for_loop_last[OF k] by (auto split: sum.splits)
  from ransac_iteration_step[OF it] have "best_ninliers s \<le> best_ninliers s'"
    using record_step_mono by blast
  with s it
  show "\<exists>s. ransac_trials rs u data datadim n modeldim mev mgen nfit k max_error macc pos = Inr s \<and>
           ransac_iteration rs u data datadim n modeldim mev mgen nfit max_error macc s = Inr s' \<and>
           best_ninliers s \<le> best_ninliers s'"
    by blast
next
  assume "ransac_iteration rs u data datadim n modeldim mev mgen nfit max_error macc t = Inr t'"
  then show "\<exists>c. ransac_candidate rs u (tmp_mask t) data datadim n mev mgen nfit max_error macc
              (rand_calls t) = Inr (c, tmp_mask t', rand_calls t') \<and>
           record_step modeldim n t c (tmp_mask t') t'"
    by (rule ransac_iteration_step)
next
  let ?s0 = "\<lparr>best_ninliers = 0, best_model = u_best_model u, best_mask = u_best_mask u,
             tmp_mask = u_tmp_mask u, rand_calls = pos\<rparr>"
  assume h: "0 \<le> k \<and>
    ransac_trials rs u data datadim n modeldim mev mgen nfit k max_error macc pos = Inr s"
  then have "for_loop 0 (0 + int (nat k))
      (\<lambda>_ s. ransac_iteration rs u data datadim n modeldim mev mgen nfit max_error macc s) ?s0
      = Inr s"
    by (simp add: ransac_trials_def)
  from trials_log[OF this] obtain tlog where
    tl: "trial_log rs u data datadim n mev mgen nfit max_error macc (nat k) (u_tmp_mask u) pos
           = Inr (tlog, tmp_mask s, rand_calls s)"
    and len: "length tlog = nat k" and fb: "first_best modeldim n ?s0 tlog s"
    by auto
  have sel: "best_ninliers ?s0 = 0" "best_model ?s0 = u_best_model u"
    "best_mask ?s0 = u_best_mask u"
    by simp_all
  from fb[unfolded first_best_def sel]
  have "best_ninliers s = Max (insert 0 (set (scored_counts tlog)))"
    and "best_ninliers s = 0 \<longrightarrow> best_model s = u_best_model u \<and> best_mask s = u_best_mask u"
    and "0 < best_ninliers s \<longrightarrow>
            (\<exists>i model msk.
               i < length tlog \<and> tlog ! i = (Some (model, best_ninliers s), msk) \<and>
               (\<forall>j < i. \<forall>m c mk. tlog ! j = (Some (m, c), mk) \<longrightarrow> c < best_ninliers s) \<and>
               (\<forall>j. 0 \<le> j \<and> j < modeldim \<longrightarrow> best_model s j = model j) \<and>
               (\<forall>j. 0 \<le> j \<and> j < n \<longrightarrow> best_mask s j = msk j))"
    by blast+
  with tl len
  show "\<exists>tlog.
         trial_log rs u data datadim n mev mgen nfit max_error macc (nat k) (u_tmp_mask u) pos
           = Inr (tlog, tmp_mask s, rand_calls s) \<and>
         length tlog = nat k \<and>
         best_ninliers s = Max (insert 0 (set (scored_counts tlog))) \<and>
         (best_ninliers s = 0 \<longrightarrow>
            best_model s = u_best_model u \<and> best_mask s = u_best_mask u) \<and>
         (0 < best_ninliers s \<longrightarrow>
            (\<exists>i model msk.
               i < length tlog \<and> tlog ! i = (Some (model, best_ninliers s), msk) \<and>
               (\<forall>j < i. \<forall>m c mk. tlog ! j = (Some (m, c), mk) \<longrightarrow> c < best_ninliers s) \<and>
               (\<forall>j. 0 \<le> j \<and> j < modeldim \<longrightarrow> best_model s j = model j) \<and>
               (\<forall>j. 0 \<le> j \<and> j < n \<longrightarrow> best_mask s j = msk j)))"
    by blast
qed

lemma trial_log_example:
  "trial_log ex_rs ex_u (ptr_add (floats ex_mem) 10) 1 3 ex_mev (\<lambda>x. x) 1 (Finite 2) None
     (Suc (Suc (Suc 0))) (u_tmp_mask ex_u) 0
   = Inr (ex_log, (\<lambda>_. False)(0 := True, 1 := True, 2 := False), 3)"
  by (simp add: ransac_eval sampler_eval)

lemma ransac_trials_example_two:
  "ransac_trials ex_rs ex_u (ptr_add (floats ex_mem) 10) 1 3 1 ex_mev (\<lambda>x. x) 1 2 (Finite 2) None 0
     = Inr (ex_best\<lparr>rand_calls := 2\<rparr>)"
  by (simp add: ransac_eval sampler_eval)

lemma ransac_candidate_example_third:
  "ransac_candidate ex_rs ex_u (tmp_mask (ex_best\<lparr>rand_calls := 2\<rparr>)) (ptr_add (floats ex_mem) 10)
     1 3 ex_mev (\<lambda>x. x) 1 (Finite 2) None (rand_calls (ex_best\<lparr>rand_calls := 2\<rparr>))
   = Inr (Some ((\<lambda>_. NaN)(0 := Finite 1), 2), tmp_mask ex_best, rand_calls ex_best)"
  by (simp add: ransac_eval sampler_eval)

theorem best_so_far_record_witness:
  "ransac_trials ex_rs ex_u (ptr_add (floats ex_mem) 10) 1 3 1 ex_mev (\<lambda>x. x) 1 0 (Finite 2) None 0
     = Inr \<lparr>best_ninliers = 0, best_model = u_best_model ex_u, best_mask = u_best_mask ex_u,
            tmp_mask = u_tmp_mask ex_u, rand_calls = 0\<rparr> \<and>
   ransac_trials ex_rs ex_u (ptr_add (floats ex_mem) 10) 1 3 1 ex_mev (\<lambda>x. x) 1 (2 + 1) (Finite 2)
     None 0 = Inr ex_best \<and>
   ransac_trials ex_rs ex_u (ptr_add (floats ex_mem) 10) 1 3 1 ex_mev (\<lambda>x. x) 1 2 (Finite 2) None 0
     = Inr (ex_best\<lparr>rand_calls := 2\<rparr>) \<and>
   ransac_iteration ex_rs ex_u (ptr_add (floats ex_mem) 10) 1 3 1 ex_mev (\<lambda>x. x) 1 (Finite 2) None
     (ex_best\<lparr>rand_calls := 2\<rparr>) = Inr ex_best \<and>
   best_ninliers (ex_best\<lparr>rand_calls := 2\<rparr>) \<le> best_ninliers ex_best \<and>
   record_step 1 3 (ex_best\<lparr>rand_calls := 2\<rparr>) (Some ((\<lambda>_. NaN)(0 := Finite 1), 2))
     (tmp_mask ex_best) ex_best \<and>
   best_model ex_best = best_model (ex_best\<lparr>rand_calls := 2\<rparr>) \<and>
   trial_log ex_rs ex_u (ptr_add (floats ex_mem) 10) 1 3 ex_mev (\<lambda>x. x) 1 (Finite 2) None (nat 3)
     (u_tmp_mask ex_u) 0 = Inr (ex_log, tmp_mask ex_best, rand_calls ex_best) \<and>
   length ex_log = nat 3 \<and>
   best_ninliers ex_best = Max (insert 0 (set (scored_counts ex_log))) \<and>
   0 < best_ninliers ex_best \<and>
   (\<exists>i model msk.
      i < length ex_log \<and> ex_log ! i = (Some (model, best_ninliers ex_best), msk) \<and>
      (\<forall>j < i. \<forall>m c mk. ex_log ! j = (Some (m, c), mk) \<longrightarrow> c < best_ninliers ex_best) \<and>
      (\<forall>j. 0 \<le> j \<and> j < 1 \<longrightarrow> best_model ex_best j = model j) \<and>
      (\<forall>j. 0 \<le> j \<and> j < 3 \<longrightarrow> best_mask ex_best j = msk j)) \<and>
   ex_log ! 1 = (Some ((\<lambda>_. NaN)(0 := Finite 0), best_ninliers ex_best),
                 (\<lambda>_. False)(0 := True, 1 := True, 2 := False)) \<and>
   ex_log ! 2 = (Some ((\<lambda>_. NaN)(0 := Finite 1), best_ninliers ex_best),
                 (\<lambda>_. False)(0 := True, 1 := True, 2 := False)) \<and>
   best_model ex_best 0 = Finite 0"
proof -
  let ?D = "ptr_add (floats ex_mem) 10"
  let ?s2 = "ex_best\<lparr>rand_calls := 2\<rparr>"
  note t = best_so_far_record[where rs = ex_rs and u = ex_u and data = ?D and datadim = 1 and n = 3
      and modeldim = 1 and mev = ex_mev and mgen = "\<lambda>x. x" and nfit = 1 and max_error = "Finite 2"
      and macc = None and pos = 0]
  have three: "ransac_trials ex_rs ex_u ?D 1 3 1 ex_mev (\<lambda>x. x) 1 (2 + 1) (Finite 2) None 0
      = Inr ex_best"
    using ransac_trials_example by simp
  have p1: "ransac_trials ex_rs ex_u ?D 1 3 1 ex_mev (\<lambda>x. x) 1 0 (Finite 2) None 0
     = Inr \<lparr>best_ninliers = 0, best_model = u_best_model ex_u, best_mask = u_best_mask ex_u,
            tmp_mask = u_tmp_mask ex_u, rand_calls = 0\<rparr>"
    by (rule t[where k = 0, THEN conjunct1, THEN mp]) simp
  have "\<exists>s. ransac_trials ex_rs ex_u ?D 1 3 1 ex_mev (\<lambda>x. x) 1 2 (Finite 2) None 0 = Inr s \<and>
           ransac_iteration ex_rs ex_u ?D 1 3 1 ex_mev (\<lambda>x. x) 1 (Finite 2) None s = Inr ex_best \<and>
           best_ninliers s \<le> best_ninliers ex_best"
    by (rule t[where k = 2 and s' = ex_best, THEN conjunct2, THEN conjunct1, THEN mp])
      (use three in simp)
  then obtain s where
    s: "ransac_trials ex_rs ex_u ?D 1 3 1 ex_mev (\<lambda>x. x) 1 2 (Finite 2) None 0 = Inr s"
    and it: "ransac_iteration ex_rs ex_u ?D 1 3 1 ex_mev (\<lambda>x. x) 1 (Finite 2) None s = Inr ex_best"
    and le: "best_ninliers s \<le> best_ninliers ex_best"
    by blast
  from s ransac_trials_example_two have s2: "s = ?s2" by simp
  have "\<exists>c. ransac_candidate ex_rs ex_u (tmp_mask ?s2) ?D 1 3 ex_mev (\<lambda>x. x) 1 (Finite 2) None
          (rand_calls ?s2) = Inr (c, tmp_mask ex_best, rand_calls ex_best) \<and>
        record_step 1 3 ?s2 c (tmp_mask ex_best) ex_best"
    by (rule t[where t = ?s2 and t' = ex_best, THEN conjunct2, THEN conjunct2, THEN conjunct1,
          THEN mp]) (rule it[unfolded s2])
  then obtain c where
    c: "ransac_candidate ex_rs ex_u (tmp_mask ?s2) ?D 1 3 ex_mev (\<lambda>x. x) 1 (Finite 2) None
          (rand_calls ?s2) = Inr (c, tmp_mask ex_best, rand_calls ex_best)"
    and st: "record_step 1 3 ?s2 c (tmp_mask ex_best) ex_best"
    by blast
  from c ransac_candidate_example_third have c3: "c = Some ((\<lambda>_. NaN)(0 := Finite 1), 2)"
    by simp
  have n3: "nat 3 = Suc (Suc (Suc 0))" by simp
  have "\<exists>tlog.
         trial_log ex_rs ex_u ?D 1 3 ex_mev (\<lambda>x. x) 1 (Finite 2) None (nat 3) (u_tmp_mask ex_u) 0
           = Inr (tlog, tmp_mask ex_best, rand_calls ex_best) \<and>
         length tlog = nat 3 \<and>
         best_ninliers ex_best = Max (insert 0 (set (scored_counts tlog))) \<and>
         (best_ninliers ex_best = 0 \<longrightarrow>
            best_model ex_best = u_best_model ex_u \<and> best_mask ex_best = u_best_mask ex_u) \<and>
         (0 < best_ninliers ex_best \<longrightarrow>
            (\<exists>i model msk.
               i < length tlog \<and> tlog ! i = (Some (model, best_ninliers ex_best), msk) \<and>
               (\<forall>j < i. \<forall>m c mk. tlog ! j = (Some (m, c), mk) \<longrightarrow> c < best_ninliers ex_best) \<and>
               (\<forall>j. 0 \<le> j \<and> j < 1 \<longrightarrow> best_model ex_best j = model j) \<and>
               (\<forall>j. 0 \<le> j \<and> j < 3 \<longrightarrow> best_mask ex_best j = msk j)))"
    by (rule t[where k = 3 and s = ex_best, THEN conjunct2, THEN conjunct2, THEN conjunct2,
          THEN mp]) (use ransac_trials_example in simp)
  then obtain tlog where
    tl: "trial_log ex_rs ex_u ?D 1 3 ex_mev (\<lambda>x. x) 1 (Finite 2) None (nat 3) (u_tmp_mask ex_u) 0
           = Inr (tlog, tmp_mask ex_best, rand_calls ex_best)"
    and len: "length tlog = nat 3"
    and mx: "best_ninliers ex_best = Max (insert 0 (set (scored_counts tlog)))"
    and first: "0 < best_ninliers ex_best \<longrightarrow>
            (\<exists>i model msk.
               i < length tlog \<and> tlog ! i = (Some (model, best_ninliers ex_best), msk) \<and>
               (\<forall>j < i. \<forall>m c mk. tlog ! j = (Some (m, c), mk) \<longrightarrow> c < best_ninliers ex_best) \<and>
               (\<forall>j. 0 \<le> j \<and> j < 1 \<longrightarrow> best_model ex_best j = model j) \<and>
               (\<forall>j. 0 \<le> j \<and> j < 3 \<longrightarrow> best_mask ex_best j = msk j))"
    by blast
  from tl trial_log_example have tlog: "tlog = ex_log" unfolding n3 by simp
  have pos: "0 < best_ninliers ex_best" by simp
  note first' = first[rule_format, OF pos, unfolded tlog]
  show ?thesis
    apply (intro conjI)
                  apply (rule p1)
                 apply (rule three)
                apply (rule ransac_trials_example_two)
               apply (rule it[unfolded s2])
              apply (rule le[unfolded s2])
             apply (rule st[unfolded c3])
            apply simp
           apply (rule tl[unfolded tlog])
          apply (rule len[unfolded tlog])
         apply (rule mx[unfolded tlog])
        apply (rule pos)
       apply (rule first')
      apply simp
     apply simp
    apply simp
    done
qed

end
